theory Spec2Isabelle
  imports Main
begin

section \<open>Outcomes and machine counters\<close>

text \<open>
  A call either returns, stops on a failed \<open>assert\<close>, or runs into behaviour the
  language leaves undefined (an array index out of range, \<open>front()\<close> or
  \<open>pop_front()\<close> on an empty \<open>std::deque\<close>).  The flag \<open>ndebug\<close> of every
  operation says whether the \<open>assert\<close> lines are compiled out (\<open>NDEBUG\<close>).
\<close>

datatype 'a outcome = AssertFail | Undefined | Ret 'a

text \<open>
  The \<open>size_t\<close> fields are natural numbers.  \<open>ULONG_MAX\<close> comes from
  \<open><climits>\<close>; it is the LP64 value, which is also the largest \<open>size_t\<close>.
  The increment of \<open>count_\<close> and the decrement of \<open>length_\<close> are written with
  their wrap-around.  \<open>length_\<close> and \<open>remain_\<close> count elements that are stored in
  the deques, so their increments stay below \<open>2 ^ 64\<close> and are written without it;
  \<open>push_back\<close> is taken to succeed (allocation failure is outside the model).
\<close>

definition ULONG_MAX :: nat where
  "ULONG_MAX = 2 ^ 64 - 1"

definition inc_size_t :: "nat \<Rightarrow> nat" where
  "inc_size_t n = (n + 1) mod 2 ^ 64"

definition dec_size_t :: "nat \<Rightarrow> nat" where
  "dec_size_t n = (if n = 0 then 2 ^ 64 - 1 else n - 1)"

section \<open>The variant with sequence tags (multi\_queue.hpp)\<close>

record 'a A_state =
  queues_A :: "(nat \<times> 'a) list list"
  count_A :: nat
  length_A :: nat

definition init_A :: "nat \<Rightarrow> 'a A_state" where
  "init_A SIZE = \<lparr>queues_A = replicate SIZE [], count_A = 0, length_A = 0\<rparr>"

text \<open>
  The loop of \<open>find_oldest_front\<close>, with the loop variable \<open>i\<close> and the locals
  \<open>k\<close> and \<open>id\<close> as arguments.
\<close>

function find_loop :: "nat \<Rightarrow> (nat \<times> 'a) list list \<Rightarrow> nat \<Rightarrow> nat \<Rightarrow> nat \<Rightarrow> nat" where
  "find_loop SIZE qs i k idv =
     (if i < SIZE then
        (if qs ! i = [] then find_loop SIZE qs (i + 1) k idv
         else if k < SIZE \<and> idv \<le> fst (hd (qs ! i)) then find_loop SIZE qs (i + 1) k idv
         else find_loop SIZE qs (i + 1) i (fst (hd (qs ! i))))
      else k)"
  by pat_completeness auto
termination
  by (relation "measure (\<lambda>(SIZE, qs, i, k, idv). SIZE - i)") auto

declare find_loop.simps [simp del]

text \<open>
  \<open>id\<close> is not initialised in the source; it is read only behind \<open>k < SIZE\<close>, after
  its first assignment, so the start value \<open>0\<close> is never looked at.
\<close>

definition find_oldest_front :: "nat \<Rightarrow> 'a A_state \<Rightarrow> nat" where
  "find_oldest_front SIZE s = find_loop SIZE (queues_A s) 0 SIZE 0"

definition size_A :: "'a A_state \<Rightarrow> nat" where
  "size_A s = length_A s"

definition size_at_A :: "bool \<Rightarrow> nat \<Rightarrow> 'a A_state \<Rightarrow> nat \<Rightarrow> nat outcome" where
  "size_at_A ndebug SIZE s i =
     (if \<not> i < SIZE then (if ndebug then Undefined else AssertFail)
      else Ret (length (queues_A s ! i)))"

definition empty_A :: "'a A_state \<Rightarrow> bool" where
  "empty_A s = (0 = length_A s)"

definition empty_at_A :: "bool \<Rightarrow> nat \<Rightarrow> 'a A_state \<Rightarrow> nat \<Rightarrow> bool outcome" where
  "empty_at_A ndebug SIZE s i =
     (if \<not> i < SIZE then (if ndebug then Undefined else AssertFail)
      else Ret (queues_A s ! i = []))"

definition front_A :: "bool \<Rightarrow> nat \<Rightarrow> 'a A_state \<Rightarrow> 'a outcome" where
  "front_A ndebug SIZE s =
     (if \<not> ndebug \<and> \<not> 0 < length_A s then AssertFail
      else let i = find_oldest_front SIZE s in
        if \<not> i < SIZE then (if ndebug then Undefined else AssertFail)
        else if queues_A s ! i = [] then Undefined
        else Ret (snd (hd (queues_A s ! i))))"

definition front_at_A :: "bool \<Rightarrow> nat \<Rightarrow> 'a A_state \<Rightarrow> nat \<Rightarrow> 'a outcome" where
  "front_at_A ndebug SIZE s i =
     (if \<not> i < SIZE then (if ndebug then Undefined else AssertFail)
      else if queues_A s ! i = [] then (if ndebug then Undefined else AssertFail)
      else Ret (snd (hd (queues_A s ! i))))"

definition enqueue_A :: "bool \<Rightarrow> nat \<Rightarrow> 'a A_state \<Rightarrow> nat \<Rightarrow> 'a \<Rightarrow> (bool \<times> 'a A_state) outcome" where
  "enqueue_A ndebug SIZE s i data =
     (if \<not> i < SIZE then (if ndebug then Undefined else AssertFail)
      else if \<not> ndebug \<and> \<not> count_A s < ULONG_MAX then AssertFail
      else if ULONG_MAX \<le> count_A s then Ret (False, s)
      else Ret (True,
        s\<lparr>queues_A := (queues_A s)[i := queues_A s ! i @ [(count_A s, data)]],
          count_A := inc_size_t (count_A s),
          length_A := length_A s + 1\<rparr>))"

definition dequeue_A :: "bool \<Rightarrow> nat \<Rightarrow> 'a A_state \<Rightarrow> 'a A_state outcome" where
  "dequeue_A ndebug SIZE s =
     (if 0 < length_A s then
        (let i = find_oldest_front SIZE s in
         if \<not> i < SIZE then (if ndebug then Undefined else AssertFail)
         else if queues_A s ! i = [] then Undefined
         else Ret (s\<lparr>queues_A := (queues_A s)[i := tl (queues_A s ! i)],
                     length_A := dec_size_t (length_A s),
                     count_A := (if dec_size_t (length_A s) = 0 then 0 else count_A s)\<rparr>))
      else Ret s)"

definition dequeue_at_A :: "bool \<Rightarrow> nat \<Rightarrow> 'a A_state \<Rightarrow> nat \<Rightarrow> 'a A_state outcome" where
  "dequeue_at_A ndebug SIZE s i =
     (if \<not> i < SIZE then (if ndebug then Undefined else AssertFail)
      else if 0 < length (queues_A s ! i) then
        Ret (s\<lparr>queues_A := (queues_A s)[i := tl (queues_A s ! i)],
               length_A := dec_size_t (length_A s),
               count_A := (if dec_size_t (length_A s) = 0 then 0 else count_A s)\<rparr>)
      else Ret s)"

section \<open>The variant with an index queue (second multi\_queue.hpp)\<close>

record 'a B_state =
  index_queue :: "nat list"
  data_queue :: "'a list list"
  remain :: "nat list"
  length_B :: nat

definition init_B :: "nat \<Rightarrow> 'a B_state" where
  "init_B SIZE =
     \<lparr>index_queue = [], data_queue = replicate SIZE [], remain = replicate SIZE 0, length_B = 0\<rparr>"

text \<open>
  \<open>adjust_deque\<close> on the pair of \<open>index_queue_\<close> and \<open>remain_\<close>.  An entry of the
  index queue that is no index of \<open>remain_\<close> makes the read \<open>remain_[i]\<close> undefined.
\<close>

fun adjust_deque :: "nat \<Rightarrow> nat list \<Rightarrow> nat list \<Rightarrow> (nat list \<times> nat list) outcome" where
  "adjust_deque SIZE [] r = Ret ([], r)"
| "adjust_deque SIZE (i # iq) r =
     (if \<not> i < SIZE then Undefined
      else if r ! i = 0 then Ret (i # iq, r)
      else adjust_deque SIZE iq (r[i := r ! i - 1]))"

definition size_B :: "'a B_state \<Rightarrow> nat" where
  "size_B s = length_B s"

definition size_at_B :: "bool \<Rightarrow> nat \<Rightarrow> 'a B_state \<Rightarrow> nat \<Rightarrow> nat outcome" where
  "size_at_B ndebug SIZE s i =
     (if \<not> i < SIZE then (if ndebug then Undefined else AssertFail)
      else Ret (length (data_queue s ! i)))"

definition empty_B :: "'a B_state \<Rightarrow> bool" where
  "empty_B s = (index_queue s = [])"

definition empty_at_B :: "bool \<Rightarrow> nat \<Rightarrow> 'a B_state \<Rightarrow> nat \<Rightarrow> bool outcome" where
  "empty_at_B ndebug SIZE s i =
     (if \<not> i < SIZE then (if ndebug then Undefined else AssertFail)
      else Ret (data_queue s ! i = []))"

definition front_B :: "bool \<Rightarrow> nat \<Rightarrow> 'a B_state \<Rightarrow> 'a outcome" where
  "front_B ndebug SIZE s =
     (case index_queue s of
        [] \<Rightarrow> (if ndebug then Undefined else AssertFail)
      | i # iq \<Rightarrow>
          if \<not> i < SIZE then Undefined
          else if data_queue s ! i = [] then Undefined
          else Ret (hd (data_queue s ! i)))"

definition front_at_B :: "bool \<Rightarrow> nat \<Rightarrow> 'a B_state \<Rightarrow> nat \<Rightarrow> 'a outcome" where
  "front_at_B ndebug SIZE s i =
     (if \<not> i < SIZE then (if ndebug then Undefined else AssertFail)
      else if data_queue s ! i = [] then (if ndebug then Undefined else AssertFail)
      else Ret (hd (data_queue s ! i)))"

definition enqueue_B :: "bool \<Rightarrow> nat \<Rightarrow> 'a B_state \<Rightarrow> nat \<Rightarrow> 'a \<Rightarrow> 'a B_state outcome" where
  "enqueue_B ndebug SIZE s i data =
     (if \<not> i < SIZE then (if ndebug then Undefined else AssertFail)
      else Ret (s\<lparr>index_queue := index_queue s @ [i],
                  data_queue := (data_queue s)[i := data_queue s ! i @ [data]],
                  length_B := length_B s + 1\<rparr>))"

definition dequeue_B :: "bool \<Rightarrow> nat \<Rightarrow> 'a B_state \<Rightarrow> 'a B_state outcome" where
  "dequeue_B ndebug SIZE s =
     (case index_queue s of
        [] \<Rightarrow> (if ndebug then Undefined else AssertFail)
      | i # iq \<Rightarrow>
          if \<not> i < SIZE then Undefined
          else if data_queue s ! i = [] then Undefined
          else (case adjust_deque SIZE iq (remain s) of
                  Ret (iq', r') \<Rightarrow>
                    Ret (s\<lparr>index_queue := iq',
                           data_queue := (data_queue s)[i := tl (data_queue s ! i)],
                           remain := r',
                           length_B := dec_size_t (length_B s)\<rparr>)
                | AssertFail \<Rightarrow> AssertFail
                | Undefined \<Rightarrow> Undefined))"

definition dequeue_at_B :: "bool \<Rightarrow> nat \<Rightarrow> 'a B_state \<Rightarrow> nat \<Rightarrow> 'a B_state outcome" where
  "dequeue_at_B ndebug SIZE s i =
     (if \<not> i < SIZE then (if ndebug then Undefined else AssertFail)
      else if data_queue s ! i = [] then (if ndebug then Undefined else AssertFail)
      else (case index_queue s of
              [] \<Rightarrow> Undefined
            | j # iq \<Rightarrow>
                if i = j then
                  (case adjust_deque SIZE iq (remain s) of
                     Ret (iq', r') \<Rightarrow>
                       Ret (s\<lparr>index_queue := iq',
                              data_queue := (data_queue s)[i := tl (data_queue s ! i)],
                              remain := r',
                              length_B := dec_size_t (length_B s)\<rparr>)
                   | AssertFail \<Rightarrow> AssertFail
                   | Undefined \<Rightarrow> Undefined)
                else
                  Ret (s\<lparr>data_queue := (data_queue s)[i := tl (data_queue s ! i)],
                         remain := (remain s)[i := remain s ! i + 1],
                         length_B := dec_size_t (length_B s)\<rparr>)))"

section \<open>The history of a run\<close>

text \<open>
  The history follows the words of the specification.  Every value that was enqueued
  gets the number of the enqueue that stored it (its insertion sequence number, never
  reset) and the sub-queue it went to; \<open>present\<close> are the entries still stored.
  \<open>dequeue()\<close> takes away the entry with the least sequence number, \<open>dequeue(i)\<close> the
  one with the least sequence number among those of sub-queue \<open>i\<close>.
\<close>

datatype 'a entry = Entry (seq: nat) (sub: nat) (val: 'a)

record 'a history =
  present :: "'a entry list"
  issued :: nat

definition init_H :: "'a history" where
  "init_H = \<lparr>present = [], issued = 0\<rparr>"

fun oldest :: "'a entry list \<Rightarrow> 'a entry option" where
  "oldest [] = None"
| "oldest (e # es) =
     (case oldest es of
        None \<Rightarrow> Some e
      | Some m \<Rightarrow> if seq e \<le> seq m then Some e else Some m)"

definition enqueue_H :: "'a history \<Rightarrow> nat \<Rightarrow> 'a \<Rightarrow> 'a history" where
  "enqueue_H h i v = \<lparr>present = present h @ [Entry (issued h) i v], issued = issued h + 1\<rparr>"

definition dequeue_H :: "'a history \<Rightarrow> 'a history" where
  "dequeue_H h =
     (case oldest (present h) of
        None \<Rightarrow> h
      | Some e \<Rightarrow> h\<lparr>present := remove1 e (present h)\<rparr>)"

definition dequeue_at_H :: "'a history \<Rightarrow> nat \<Rightarrow> 'a history" where
  "dequeue_at_H h i =
     (case oldest (filter (\<lambda>e. sub e = i) (present h)) of
        None \<Rightarrow> h
      | Some e \<Rightarrow> h\<lparr>present := remove1 e (present h)\<rparr>)"

section \<open>Reachable states\<close>

text \<open>
  The states a caller can bring the structure into from the constructor, by calls that
  return, together with the history of the calls.  \<open>enqueue\<close> of the first variant
  stores nothing when it returns \<open>false\<close>.
\<close>

inductive run_A :: "bool \<Rightarrow> nat \<Rightarrow> 'a A_state \<Rightarrow> 'a history \<Rightarrow> bool"
  for ndebug :: bool and SIZE :: nat where
  init: "run_A ndebug SIZE (init_A SIZE) init_H"
| enq: "run_A ndebug SIZE s h \<Longrightarrow> enqueue_A ndebug SIZE s i v = Ret (True, s')
        \<Longrightarrow> run_A ndebug SIZE s' (enqueue_H h i v)"
| enq_fail: "run_A ndebug SIZE s h \<Longrightarrow> enqueue_A ndebug SIZE s i v = Ret (False, s')
        \<Longrightarrow> run_A ndebug SIZE s' h"
| deq: "run_A ndebug SIZE s h \<Longrightarrow> dequeue_A ndebug SIZE s = Ret s'
        \<Longrightarrow> run_A ndebug SIZE s' (dequeue_H h)"
| deq_at: "run_A ndebug SIZE s h \<Longrightarrow> dequeue_at_A ndebug SIZE s i = Ret s'
        \<Longrightarrow> run_A ndebug SIZE s' (dequeue_at_H h i)"

inductive run_B :: "bool \<Rightarrow> nat \<Rightarrow> 'a B_state \<Rightarrow> 'a history \<Rightarrow> bool"
  for ndebug :: bool and SIZE :: nat where
  init: "run_B ndebug SIZE (init_B SIZE) init_H"
| enq: "run_B ndebug SIZE s h \<Longrightarrow> enqueue_B ndebug SIZE s i v = Ret s'
        \<Longrightarrow> run_B ndebug SIZE s' (enqueue_H h i v)"
| deq: "run_B ndebug SIZE s h \<Longrightarrow> dequeue_B ndebug SIZE s = Ret s'
        \<Longrightarrow> run_B ndebug SIZE s' (dequeue_H h)"
| deq_at: "run_B ndebug SIZE s h \<Longrightarrow> dequeue_at_B ndebug SIZE s i = Ret s'
        \<Longrightarrow> run_B ndebug SIZE s' (dequeue_at_H h i)"

text \<open>
  Both variants driven by the same calls, each call within the contract of the
  specification: a valid index, an insertion counter that is not exhausted for
  \<open>enqueue\<close>, a structure that is not empty for \<open>dequeue()\<close>, a sub-queue that is not
  empty for \<open>dequeue(i)\<close>.
\<close>

inductive run_AB :: "bool \<Rightarrow> nat \<Rightarrow> 'a A_state \<Rightarrow> 'a B_state \<Rightarrow> bool"
  for ndebug :: bool and SIZE :: nat where
  init: "run_AB ndebug SIZE (init_A SIZE) (init_B SIZE)"
| enq: "run_AB ndebug SIZE sa sb \<Longrightarrow> i < SIZE \<Longrightarrow> count_A sa < ULONG_MAX
        \<Longrightarrow> enqueue_A ndebug SIZE sa i v = Ret (ok, sa') \<Longrightarrow> enqueue_B ndebug SIZE sb i v = Ret sb'
        \<Longrightarrow> run_AB ndebug SIZE sa' sb'"
| deq: "run_AB ndebug SIZE sa sb \<Longrightarrow> \<not> empty_A sa
        \<Longrightarrow> dequeue_A ndebug SIZE sa = Ret sa' \<Longrightarrow> dequeue_B ndebug SIZE sb = Ret sb'
        \<Longrightarrow> run_AB ndebug SIZE sa' sb'"
| deq_at: "run_AB ndebug SIZE sa sb \<Longrightarrow> empty_at_A ndebug SIZE sa i = Ret False
        \<Longrightarrow> dequeue_at_A ndebug SIZE sa i = Ret sa' \<Longrightarrow> dequeue_at_B ndebug SIZE sb i = Ret sb'
        \<Longrightarrow> run_AB ndebug SIZE sa' sb'"

section \<open>What \<open>enqueue\<close> hands back to its caller\<close>

text \<open>
  \<open>enqueue\<close> is declared \<open>bool enqueue(size_t, const TYPE&)\<close> in the variant with
  sequence tags and \<open>void enqueue(size_t, const TYPE&)\<close> in the variant with an index
  queue: a caller of the first gets a truth value, a caller of the second gets nothing.
\<close>

datatype returned = Void | Bool bool

definition enqueue_returns_A :: "bool \<Rightarrow> nat \<Rightarrow> 'a A_state \<Rightarrow> nat \<Rightarrow> 'a \<Rightarrow> returned outcome" where
  "enqueue_returns_A ndebug SIZE s i data =
     (case enqueue_A ndebug SIZE s i data of
        Ret (ok, s') \<Rightarrow> Ret (Bool ok)
      | AssertFail \<Rightarrow> AssertFail
      | Undefined \<Rightarrow> Undefined)"

definition enqueue_returns_B :: "bool \<Rightarrow> nat \<Rightarrow> 'a B_state \<Rightarrow> nat \<Rightarrow> 'a \<Rightarrow> returned outcome" where
  "enqueue_returns_B ndebug SIZE s i data =
     (case enqueue_B ndebug SIZE s i data of
        Ret s' \<Rightarrow> Ret Void
      | AssertFail \<Rightarrow> AssertFail
      | Undefined \<Rightarrow> Undefined)"

section \<open>What a state has to do with its history\<close>

text \<open>
  The variant with sequence tags: sub-queue \<open>i\<close> holds the present entries of sub-queue
  \<open>i\<close> in their order, each tagged with its sequence number less the number of values
  enqueued before the counter was last reset.
\<close>

definition rel_A :: "nat \<Rightarrow> 'a A_state \<Rightarrow> 'a history \<Rightarrow> bool" where
  "rel_A SIZE s h \<longleftrightarrow>
     length (queues_A s) = SIZE \<and> length_A s = length (present h) \<and>
     count_A s \<le> ULONG_MAX \<and> count_A s \<le> issued h \<and>
     (present h = [] \<longrightarrow> count_A s = 0) \<and>
     sorted_wrt (<) (map seq (present h)) \<and>
     (\<forall>e \<in> set (present h). issued h - count_A s \<le> seq e \<and> seq e < issued h \<and> sub e < SIZE) \<and>
     (\<forall>i<SIZE. queues_A s ! i =
        map (\<lambda>e. (seq e - (issued h - count_A s), val e)) (filter (\<lambda>e. sub e = i) (present h)))"

text \<open>The state after \<open>pop_front()\<close> on sub-queue \<open>i\<close>, as both \<open>dequeue\<close> functions leave it.\<close>

definition popped_A :: "'a A_state \<Rightarrow> nat \<Rightarrow> 'a A_state" where
  "popped_A s i = s\<lparr>queues_A := (queues_A s)[i := tl (queues_A s ! i)],
                     length_A := dec_size_t (length_A s),
                     count_A := (if dec_size_t (length_A s) = 0 then 0 else count_A s)\<rparr>"

text \<open>
  The variant with an index queue: \<open>live\<close> reads the index queue as \<open>adjust_deque\<close>
  would, dropping for each index \<open>i\<close> the first \<open>remain_[i]\<close> entries; what is left are
  the sub-queues of the present entries in their order.
\<close>

fun live :: "nat list \<Rightarrow> nat list \<Rightarrow> nat list" where
  "live [] r = []"
| "live (i # iq) r = (if r ! i = 0 then i # live iq r else live iq (r[i := r ! i - 1]))"

definition rel_B :: "nat \<Rightarrow> 'a B_state \<Rightarrow> 'a history \<Rightarrow> bool" where
  "rel_B SIZE s h \<longleftrightarrow>
     length (data_queue s) = SIZE \<and> length (remain s) = SIZE \<and>
     length_B s = length (present h) \<and>
     sorted_wrt (<) (map seq (present h)) \<and>
     (\<forall>e \<in> set (present h). seq e < issued h \<and> sub e < SIZE) \<and>
     (\<forall>i<SIZE. data_queue s ! i = map val (filter (\<lambda>e. sub e = i) (present h))) \<and>
     (\<forall>i \<in> set (index_queue s). i < SIZE) \<and>
     (index_queue s \<noteq> [] \<longrightarrow> remain s ! hd (index_queue s) = 0) \<and>
     live (index_queue s) (remain s) = map sub (present h) \<and>
     (\<forall>i<SIZE. count_list (index_queue s) i = remain s ! i + length (data_queue s ! i))"

text \<open>
  The states after \<open>dequeue()\<close> (or \<open>dequeue(i)\<close> with \<open>i\<close> at the front of the index
  queue) and after \<open>dequeue(i)\<close> with another index at the front.
\<close>

definition popped_front_B :: "'a B_state \<Rightarrow> nat \<Rightarrow> nat list \<Rightarrow> nat list \<Rightarrow> 'a B_state" where
  "popped_front_B s j iq' r' =
     s\<lparr>index_queue := iq',
       data_queue := (data_queue s)[j := tl (data_queue s ! j)],
       remain := r',
       length_B := dec_size_t (length_B s)\<rparr>"

definition popped_inner_B :: "'a B_state \<Rightarrow> nat \<Rightarrow> 'a B_state" where
  "popped_inner_B s i =
     s\<lparr>data_queue := (data_queue s)[i := tl (data_queue s ! i)],
       remain := (remain s)[i := remain s ! i + 1],
       length_B := dec_size_t (length_B s)\<rparr>"

section \<open>Example states\<close>

text \<open>
  With \<open>SIZE = 2\<close>: the states after \<open>enqueue(0, a)\<close>, \<open>enqueue(1, b)\<close>,
  \<open>enqueue(0, c)\<close>, and then after \<open>dequeue(1)\<close>, which leaves an entry for an already
  removed value in the index queue.
\<close>

definition full_H :: "char history" where
  "full_H = \<lparr>present = [Entry 0 0 CHR ''a'', Entry 1 1 CHR ''b'', Entry 2 0 CHR ''c''], issued = 3\<rparr>"

definition full_A :: "char A_state" where
  "full_A = \<lparr>queues_A = [[(0, CHR ''a''), (2, CHR ''c'')], [(1, CHR ''b'')]], count_A = 3, length_A = 3\<rparr>"

definition full_B :: "char B_state" where
  "full_B = \<lparr>index_queue = [0, 1, 0], data_queue = [[CHR ''a'', CHR ''c''], [CHR ''b'']],
              remain = [0, 0], length_B = 3\<rparr>"

definition example_H :: "char history" where
  "example_H = \<lparr>present = [Entry 0 0 CHR ''a'', Entry 2 0 CHR ''c''], issued = 3\<rparr>"

definition example_A :: "char A_state" where
  "example_A = \<lparr>queues_A = [[(0, CHR ''a''), (2, CHR ''c'')], []], count_A = 3, length_A = 2\<rparr>"

definition example_B :: "char B_state" where
  "example_B = \<lparr>index_queue = [0, 1, 0], data_queue = [[CHR ''a'', CHR ''c''], []],
                 remain = [0, 1], length_B = 2\<rparr>"

text \<open>
  With \<open>SIZE = 1\<close>: a state of the variant with sequence tags whose counter is
  exhausted, reached by \<open>ULONG_MAX\<close> calls of \<open>enqueue\<close> with one \<open>dequeue(0)\<close> after each
  but the first.
\<close>

definition exhausted_A :: "char A_state" where
  "exhausted_A = \<lparr>queues_A = [[(ULONG_MAX - 1, CHR ''c'')]], count_A = ULONG_MAX, length_A = 1\<rparr>"

definition exhausted_H :: "char history" where
  "exhausted_H = \<lparr>present = [Entry (ULONG_MAX - 1) 0 CHR ''c''], issued = ULONG_MAX\<rparr>"

section \<open>Auxiliary facts\<close>

subsection \<open>The scan for the oldest front\<close>

lemma find_loop_min:
  assumes j: "j < SIZE" "qs ! j \<noteq> []"
    and m: "\<forall>i<SIZE. i \<noteq> j \<longrightarrow> qs ! i \<noteq> [] \<longrightarrow> fst (hd (qs ! j)) < fst (hd (qs ! i))"
  shows "(i \<le> j \<and> k \<le> SIZE \<and> (k < SIZE \<longrightarrow> k < i \<and> qs ! k \<noteq> [] \<and> d = fst (hd (qs ! k))))
         \<or> (j < i \<and> k = j \<and> d = fst (hd (qs ! j)))
     \<Longrightarrow> find_loop SIZE qs i k d = j"
  using j m
proof (induction SIZE qs i k d rule: find_loop.induct)
  case (1 SIZE qs i k d)
  show ?case
  proof (cases "i < SIZE")
    case False
    with "1.prems" show ?thesis by (simp add: find_loop.simps)
  next
    case True
    note lt = this
    show ?thesis
    proof (cases "qs ! i = []")
      case True
      with lt "1.prems" have "i \<noteq> j" by auto
      with "1.prems" have "find_loop SIZE qs (i + 1) k d = j"
        by (intro "1.IH"(1)[OF lt True]) auto
      with lt True show ?thesis by (subst find_loop.simps) simp
    next
      case False
      note ne = this
      show ?thesis
      proof (cases "k < SIZE \<and> d \<le> fst (hd (qs ! i))")
        case True
        have "i \<noteq> j"
        proof
          assume "i = j"
          with "1.prems" True have "k < j" "qs ! k \<noteq> []" "d = fst (hd (qs ! k))" by auto
          moreover from this "1.prems"(2,4) have "fst (hd (qs ! j)) < fst (hd (qs ! k))"
            by (metis less_trans nat_neq_iff)
          ultimately show False using True \<open>i = j\<close> by simp
        qed
        with "1.prems" have "find_loop SIZE qs (i + 1) k d = j"
          by (intro "1.IH"(2)[OF lt ne True]) auto
        with lt ne True show ?thesis by (subst find_loop.simps) simp
      next
        case False
        have "find_loop SIZE qs (i + 1) i (fst (hd (qs ! i))) = j"
        proof (rule "1.IH"(3)[OF lt ne False])
          show "i + 1 \<le> j \<and> i \<le> SIZE \<and> (i < SIZE \<longrightarrow> i < i + 1 \<and> qs ! i \<noteq> [] \<and> fst (hd (qs ! i)) = fst (hd (qs ! i)))
             \<or> j < i + 1 \<and> i = j \<and> fst (hd (qs ! i)) = fst (hd (qs ! j))"
            using "1.prems" False lt ne by (cases "i = j") force+
        qed (use "1.prems" in auto)
        with lt ne False show ?thesis by (subst find_loop.simps) auto
      qed
    qed
  qed
qed

text \<open>The start value given to the local \<open>id\<close> does not matter.\<close>

lemma find_loop_uninitialised:
  "find_loop SIZE qs i SIZE d = find_loop SIZE qs i SIZE d'"
proof (induction "SIZE - i" arbitrary: i)
  case 0
  then show ?case by (simp add: find_loop.simps)
next
  case (Suc n)
  then have lt: "i < SIZE" and n: "n = SIZE - (i + 1)" by simp_all
  show ?case
  proof (cases "qs ! i = []")
    case True
    with lt Suc.hyps(1)[OF n] show ?thesis
      by (subst (1 2) find_loop.simps) simp
  next
    case False
    with lt show ?thesis
      by (subst (1 2) find_loop.simps) simp
  qed
qed

subsection \<open>Lists, histories and counters\<close>

lemma oldest_sorted:
  "sorted_wrt (<) (map seq es) \<Longrightarrow> oldest es = (case es of [] \<Rightarrow> None | e # _ \<Rightarrow> Some e)"
  by (induction es) (auto split: list.splits option.splits)

lemma sorted_wrt_remove1: "sorted_wrt P xs \<Longrightarrow> sorted_wrt P (remove1 x xs)"
  by (induction xs) (auto dest: notin_set_remove1)

lemma sorted_seq_remove1:
  "sorted_wrt (<) (map seq es) \<Longrightarrow> sorted_wrt (<) (map seq (remove1 e es))"
  by (simp add: sorted_wrt_map sorted_wrt_remove1)

lemma sorted_seq_filter:
  "sorted_wrt (<) (map seq es) \<Longrightarrow> sorted_wrt (<) (map seq (filter P es))"
  by (simp add: sorted_wrt_map sorted_wrt_filter)

lemma oldest_filter:
  "sorted_wrt (<) (map seq es) \<Longrightarrow>
   oldest (filter P es) = (case filter P es of [] \<Rightarrow> None | e # _ \<Rightarrow> Some e)"
  by (rule oldest_sorted) (rule sorted_seq_filter)

lemma filter_remove1_other:
  "\<not> P e \<Longrightarrow> filter P (remove1 e es) = filter P es"
  by (induction es) auto

lemma filter_remove1_head:
  "filter P es = e # rest \<Longrightarrow> filter P (remove1 e es) = rest"
  by (simp add: filter_remove1)

lemma hd_filter_mem: "filter P xs \<noteq> [] \<Longrightarrow> hd (filter P xs) \<in> set xs"
  using hd_in_set[of "filter P xs"] by auto

lemma dequeue_H_sorted:
  "sorted_wrt (<) (map seq (present h)) \<Longrightarrow> dequeue_H h = h\<lparr>present := tl (present h)\<rparr>"
  using oldest_sorted[of "present h"] by (auto simp: dequeue_H_def split: list.splits)

lemma map_sub_remove1:
  "filter (\<lambda>x. sub x = i) es = e # rest \<Longrightarrow> map sub (remove1 e es) = remove1 i (map sub es)"
proof (induction es)
  case Nil
  then show ?case by simp
next
  case (Cons x es)
  show ?case
  proof (cases "sub x = i")
    case True
    with Cons.prems show ?thesis by simp
  next
    case False
    with Cons.prems have "e \<in> set (filter (\<lambda>x. sub x = i) es)" by simp
    then have "sub e = i" by simp
    with False have "x \<noteq> e" by auto
    with False Cons show ?thesis by simp
  qed
qed

lemma sorted_hd_least:
  "sorted_wrt (<) (map seq (e # es)) \<Longrightarrow> \<forall>x\<in>set (e # es). x \<noteq> e \<longrightarrow> seq e < seq x"
  by auto

lemma sorted_seq_distinct: "sorted_wrt (<) (map seq es) \<Longrightarrow> distinct (map seq es)"
  by (simp add: strict_sorted_iff)

lemma length_by_sub:
  "\<forall>e\<in>set es. sub e < n \<Longrightarrow> length es = (\<Sum>i<n. length (filter (\<lambda>e. sub e = i) es))"
proof (induction es)
  case Nil
  then show ?case by simp
next
  case (Cons x es)
  then have x: "sub x < n" by simp
  have "(\<Sum>i<n. length (filter (\<lambda>e. sub e = i) (x # es)))
      = (\<Sum>i<n. (if i = sub x then 1 else 0) + length (filter (\<lambda>e. sub e = i) es))"
    by (intro sum.cong) auto
  also have "\<dots> = (\<Sum>i<n. if i = sub x then 1 else 0) + (\<Sum>i<n. length (filter (\<lambda>e. sub e = i) es))"
    by (simp add: sum.distrib)
  also have "(\<Sum>i<n. if i = sub x then 1 else 0) = (1::nat)"
    using x by simp
  finally show ?case using Cons by simp
qed

lemma length_by_count:
  "\<forall>j\<in>set xs. j < (n::nat) \<Longrightarrow> length xs = (\<Sum>i<n. count_list xs i)"
proof -
  assume "\<forall>j\<in>set xs. j < n"
  then have "set xs \<subseteq> {..<n}" by auto
  then have "sum (count_list xs) {..<n} = length xs" by (rule sum_count_set) simp
  then show ?thesis by simp
qed

lemma inc_size_t_count: "n < ULONG_MAX \<Longrightarrow> inc_size_t n = n + 1"
  by (simp add: inc_size_t_def ULONG_MAX_def)

lemma dec_size_t_pos: "0 < n \<Longrightarrow> dec_size_t n = n - 1"
  by (simp add: dec_size_t_def)

subsection \<open>The variant with sequence tags follows the history\<close>

lemma rel_A_init: "rel_A SIZE (init_A SIZE) init_H"
  by (simp add: rel_A_def init_A_def init_H_def)

lemma rel_A_enqueue:
  assumes r: "rel_A SIZE s h" and e: "enqueue_A nd SIZE s i v = Ret (True, s')"
  shows "rel_A SIZE s' (enqueue_H h i v)"
proof -
  from e have i: "i < SIZE" and c: "count_A s < ULONG_MAX"
    by (auto simp: enqueue_A_def split: if_splits)
  with e have s': "s' = s\<lparr>queues_A := (queues_A s)[i := queues_A s ! i @ [(count_A s, v)]],
          count_A := count_A s + 1, length_A := length_A s + 1\<rparr>"
    by (auto simp: enqueue_A_def inc_size_t_count split: if_splits)
  from r have len: "length (queues_A s) = SIZE" by (simp add: rel_A_def)
  from r have ci: "count_A s \<le> issued h" by (simp add: rel_A_def)
  have off: "issued h + 1 - (count_A s + 1) = issued h - count_A s" by simp
  have tag: "issued h - (issued h - count_A s) = count_A s" using ci by simp
  show ?thesis
    unfolding rel_A_def
  proof (intro conjI allI impI ballI)
    fix j assume "j < SIZE"
    with r i len show "queues_A s' ! j =
        map (\<lambda>e. (seq e - (issued (enqueue_H h i v) - count_A s'), val e))
          (filter (\<lambda>e. sub e = j) (present (enqueue_H h i v)))"
      by (cases "j = i") (simp_all add: s' enqueue_H_def rel_A_def off tag)
  next
    show "sorted_wrt (<) (map seq (present (enqueue_H h i v)))"
      using r by (auto simp: enqueue_H_def rel_A_def sorted_wrt_append)
  qed (use r i c ci in \<open>auto simp: s' enqueue_H_def rel_A_def\<close>)
qed

lemma rel_A_remove:
  assumes r: "rel_A SIZE s h" and i: "i < SIZE"
    and f: "filter (\<lambda>e. sub e = i) (present h) = e # rest"
  shows "rel_A SIZE (popped_A s i) (h\<lparr>present := remove1 e (present h)\<rparr>)"
proof -
  let ?g = "\<lambda>e. (seq e - (issued h - count_A s), val e)"
  let ?p' = "remove1 e (present h)"
  from f have "e \<in> set (filter (\<lambda>e. sub e = i) (present h))" by simp
  then have mem: "e \<in> set (present h)" and sub: "sub e = i" by simp_all
  from r have len: "length (queues_A s) = SIZE" by (simp add: rel_A_def)
  from mem have pos: "0 < length (present h)" by (cases "present h") auto
  from r pos have dec: "dec_size_t (length_A s) = length ?p'"
    using mem by (simp add: rel_A_def dec_size_t_pos length_remove1)
  have q: "queues_A (popped_A s i) ! j = map ?g (filter (\<lambda>e. sub e = j) ?p')" if j: "j < SIZE" for j
  proof (cases "j = i")
    case True
    from r i have "queues_A s ! i = map ?g (e # rest)" by (simp add: rel_A_def f)
    with True i len show ?thesis
      by (simp add: popped_A_def filter_remove1_head[OF f])
  next
    case False
    with sub have "filter (\<lambda>e. sub e = j) ?p' = filter (\<lambda>e. sub e = j) (present h)"
      by (intro filter_remove1_other) auto
    with False r j len show ?thesis by (simp add: popped_A_def rel_A_def)
  qed
  have sorted: "sorted_wrt (<) (map seq ?p')"
    using r by (simp add: rel_A_def sorted_seq_remove1)
  have sub_set: "set ?p' \<subseteq> set (present h)" by (rule set_remove1_subset)
  show ?thesis
  proof (cases "length ?p' = 0")
    case True
    then have "?p' = []" by simp
    with q dec len show ?thesis by (simp add: rel_A_def popped_A_def)
  next
    case False
    with dec have c: "count_A (popped_A s i) = count_A s" by (simp add: popped_A_def)
    have "\<forall>j<SIZE. queues_A (popped_A s i) ! j = map ?g (filter (\<lambda>e. sub e = j) ?p')"
      using q by blast
    moreover have "\<forall>e\<in>set ?p'. issued h - count_A s \<le> seq e \<and> seq e < issued h \<and> sub e < SIZE"
      using r sub_set by (auto simp: rel_A_def)
    moreover from False have "?p' \<noteq> []" by simp
    ultimately show ?thesis
      using r sorted dec len by (simp add: rel_A_def c) (simp add: popped_A_def)
  qed
qed

lemma dequeue_at_A_nonempty:
  "i < SIZE \<Longrightarrow> queues_A s ! i \<noteq> [] \<Longrightarrow> dequeue_at_A nd SIZE s i = Ret (popped_A s i)"
  by (simp add: dequeue_at_A_def popped_A_def)

lemma dequeue_at_A_empty:
  "i < SIZE \<Longrightarrow> queues_A s ! i = [] \<Longrightarrow> dequeue_at_A nd SIZE s i = Ret s"
  by (simp add: dequeue_at_A_def)

lemma dequeue_at_A_Ret: "dequeue_at_A nd SIZE s i = Ret s' \<Longrightarrow> i < SIZE"
  by (auto simp: dequeue_at_A_def split: if_splits)

lemma rel_A_dequeue_at:
  assumes r: "rel_A SIZE s h" and d: "dequeue_at_A nd SIZE s i = Ret s'"
  shows "rel_A SIZE s' (dequeue_at_H h i)"
proof -
  from d have i: "i < SIZE" by (rule dequeue_at_A_Ret)
  from r have srt: "sorted_wrt (<) (map seq (present h))" by (simp add: rel_A_def)
  show ?thesis
  proof (cases "filter (\<lambda>e. sub e = i) (present h)")
    case Nil
    with r i have "queues_A s ! i = []" by (simp add: rel_A_def)
    with d i have "s' = s" by (simp add: dequeue_at_A_empty)
    moreover from Nil have "dequeue_at_H h i = h"
      by (simp add: dequeue_at_H_def)
    ultimately show ?thesis using r by simp
  next
    case (Cons e rest)
    with r i have "queues_A s ! i \<noteq> []" by (simp add: rel_A_def)
    with d i have "s' = popped_A s i" by (simp add: dequeue_at_A_nonempty)
    moreover have "oldest (filter (\<lambda>e. sub e = i) (present h)) = Some e"
      using sorted_seq_filter[OF srt, of "\<lambda>e. sub e = i"] oldest_sorted[of "e # rest"]
      by (simp add: Cons)
    then have "dequeue_at_H h i = h\<lparr>present := remove1 e (present h)\<rparr>"
      by (simp add: dequeue_at_H_def)
    ultimately show ?thesis using rel_A_remove[OF r i Cons] by simp
  qed
qed

lemma find_oldest_front_rel:
  assumes r: "rel_A SIZE s h" and p: "present h = e # es"
  shows "find_oldest_front SIZE s = sub e"
proof -
  let ?off = "issued h - count_A s"
  let ?g = "\<lambda>e. (seq e - ?off, val e)"
  from r p have j: "sub e < SIZE" and off: "?off \<le> seq e" by (simp_all add: rel_A_def)
  from r j p have qj: "queues_A s ! sub e = ?g e # map ?g (filter (\<lambda>x. sub x = sub e) es)"
    by (simp add: rel_A_def)
  from r p have lt: "\<forall>x\<in>set es. seq e < seq x" by (simp add: rel_A_def)
  have m: "\<forall>i<SIZE. i \<noteq> sub e \<longrightarrow> queues_A s ! i \<noteq> [] \<longrightarrow>
             fst (hd (queues_A s ! sub e)) < fst (hd (queues_A s ! i))"
  proof (intro allI impI)
    fix i assume i: "i < SIZE" "i \<noteq> sub e" "queues_A s ! i \<noteq> []"
    let ?f = "filter (\<lambda>x. sub x = i) es"
    from r i p have qi: "queues_A s ! i = map ?g ?f" by (auto simp: rel_A_def)
    with i have ne: "?f \<noteq> []" by auto
    then have "hd ?f \<in> set es" by (rule hd_filter_mem)
    with lt have "seq e < seq (hd ?f)" by blast
    with off have "seq e - ?off < seq (hd ?f) - ?off" by simp
    with qi qj ne show "fst (hd (queues_A s ! sub e)) < fst (hd (queues_A s ! i))"
      by (simp add: hd_map)
  qed
  from qj have "queues_A s ! sub e \<noteq> []" by simp
  from find_loop_min[OF j this m, of 0 SIZE 0] show ?thesis
    by (simp add: find_oldest_front_def)
qed

lemma rel_A_length: "rel_A SIZE s h \<Longrightarrow> length_A s = length (present h)"
  by (simp add: rel_A_def)

lemma front_A_rel:
  assumes r: "rel_A SIZE s h" and p: "present h = e # es"
  shows "front_A nd SIZE s = Ret (val e)"
proof -
  from r p have j: "sub e < SIZE" by (simp add: rel_A_def)
  from r j p have "queues_A s ! sub e =
      (seq e - (issued h - count_A s), val e) #
        map (\<lambda>e. (seq e - (issued h - count_A s), val e)) (filter (\<lambda>x. sub x = sub e) es)"
    by (simp add: rel_A_def)
  with j rel_A_length[OF r] p show ?thesis
    by (simp add: front_A_def find_oldest_front_rel[OF r p])
qed

lemma dequeue_A_rel:
  assumes r: "rel_A SIZE s h" and p: "present h = e # es"
  shows "dequeue_A nd SIZE s = Ret (popped_A s (sub e))"
proof -
  from r p have j: "sub e < SIZE" by (simp add: rel_A_def)
  from r j p have "queues_A s ! sub e \<noteq> []" by (simp add: rel_A_def)
  with j rel_A_length[OF r] p show ?thesis
    by (simp add: dequeue_A_def find_oldest_front_rel[OF r p] popped_A_def Let_def)
qed

lemma rel_A_dequeue:
  assumes r: "rel_A SIZE s h" and d: "dequeue_A nd SIZE s = Ret s'"
  shows "rel_A SIZE s' (dequeue_H h)"
proof (cases "present h")
  case Nil
  with rel_A_length[OF r] d have "s' = s" by (simp add: dequeue_A_def)
  moreover from Nil have "dequeue_H h = h" by (simp add: dequeue_H_def)
  ultimately show ?thesis using r by simp
next
  case (Cons e es)
  from r have "sorted_wrt (<) (map seq (present h))" by (simp add: rel_A_def)
  then have "dequeue_H h = h\<lparr>present := remove1 e (present h)\<rparr>"
    by (simp add: dequeue_H_sorted Cons)
  moreover from dequeue_A_rel[OF r Cons] d have "s' = popped_A s (sub e)" by simp
  moreover have f: "filter (\<lambda>x. sub x = sub e) (present h) = e # filter (\<lambda>x. sub x = sub e) es"
    by (simp add: Cons)
  moreover from r Cons have "sub e < SIZE" by (simp add: rel_A_def)
  ultimately show ?thesis
    using rel_A_remove[OF r _ f] by simp
qed

lemma enqueue_A_False: "enqueue_A nd SIZE s i v = Ret (False, s') \<Longrightarrow> s' = s"
  by (auto simp: enqueue_A_def split: if_splits)

lemma run_A_rel: "run_A nd SIZE s h \<Longrightarrow> rel_A SIZE s h"
proof (induction rule: run_A.induct)
  case init
  show ?case by (rule rel_A_init)
next
  case (enq s h i v s')
  then show ?case by (blast intro: rel_A_enqueue)
next
  case (enq_fail s h i v s')
  then show ?case by (auto dest: enqueue_A_False)
next
  case (deq s h s')
  then show ?case by (blast intro: rel_A_dequeue)
next
  case (deq_at s h i s')
  then show ?case by (blast intro: rel_A_dequeue_at)
qed

lemma rel_A_drained:
  assumes r: "rel_A SIZE s h" and l: "length_A s = 0"
  shows "s = init_A SIZE"
proof -
  from r l have p: "present h = []" by (simp add: rel_A_def)
  with r have c: "count_A s = 0" by (simp add: rel_A_def)
  from r p have "\<forall>i<SIZE. queues_A s ! i = []" by (simp add: rel_A_def)
  moreover from r have "length (queues_A s) = SIZE" by (simp add: rel_A_def)
  ultimately have "queues_A s = replicate SIZE []"
    by (intro nth_equalityI) simp_all
  with c l show ?thesis by (cases s) (simp add: init_A_def)
qed

lemma rel_A_sum: "rel_A SIZE s h \<Longrightarrow> length_A s = (\<Sum>i<SIZE. length (queues_A s ! i))"
proof -
  assume r: "rel_A SIZE s h"
  then have "length_A s = (\<Sum>i<SIZE. length (filter (\<lambda>e. sub e = i) (present h)))"
    using length_by_sub[of "present h" SIZE] by (simp add: rel_A_def)
  also have "\<dots> = (\<Sum>i<SIZE. length (queues_A s ! i))"
    using r by (intro sum.cong) (simp_all add: rel_A_def)
  finally show ?thesis .
qed

lemma rel_A_values:
  "rel_A SIZE s h \<Longrightarrow> i < SIZE \<Longrightarrow>
   map snd (queues_A s ! i) = map val (filter (\<lambda>x. sub x = i) (present h))"
  by (simp add: rel_A_def o_def)

lemma rel_A_tag_bound:
  assumes r: "rel_A SIZE s h" and i: "i < SIZE" and a: "a < length (queues_A s ! i)"
  shows "fst (queues_A s ! i ! a) < count_A s"
proof -
  let ?F = "filter (\<lambda>e. sub e = i) (present h)"
  from r i have q: "queues_A s ! i = map (\<lambda>e. (seq e - (issued h - count_A s), val e)) ?F"
    by (simp add: rel_A_def)
  with a have al: "a < length ?F" by simp
  then have "?F ! a \<in> set ?F" by (rule nth_mem)
  then have "?F ! a \<in> set (present h)" by simp
  with r have "seq (?F ! a) < issued h" "count_A s \<le> issued h"
      "issued h - count_A s \<le> seq (?F ! a)"
    by (simp_all add: rel_A_def)
  then have "seq (?F ! a) - (issued h - count_A s) < count_A s" by arith
  with q al show ?thesis by simp
qed

lemma rel_A_tags_distinct:
  assumes r: "rel_A SIZE s h" and i: "i < SIZE" and j: "j < SIZE"
    and a: "a < length (queues_A s ! i)" and b: "b < length (queues_A s ! j)"
    and t: "fst (queues_A s ! i ! a) = fst (queues_A s ! j ! b)"
  shows "i = j \<and> a = b"
proof -
  let ?off = "issued h - count_A s"
  let ?g = "\<lambda>e. (seq e - ?off, val e)"
  let ?Fi = "filter (\<lambda>e. sub e = i) (present h)"
  let ?Fj = "filter (\<lambda>e. sub e = j) (present h)"
  from r i j have q: "queues_A s ! i = map ?g ?Fi" "queues_A s ! j = map ?g ?Fj"
    by (simp_all add: rel_A_def)
  with a b have al: "a < length ?Fi" and bl: "b < length ?Fj" by simp_all
  from al have mi: "?Fi ! a \<in> set ?Fi" by (rule nth_mem)
  from bl have mj: "?Fj ! b \<in> set ?Fj" by (rule nth_mem)
  from mi mj have mem: "?Fi ! a \<in> set (present h)" "?Fj ! b \<in> set (present h)"
    and sub: "sub (?Fi ! a) = i" "sub (?Fj ! b) = j" by simp_all
  from r mem have "?off \<le> seq (?Fi ! a)" "?off \<le> seq (?Fj ! b)" by (simp_all add: rel_A_def)
  moreover from t q al bl have "seq (?Fi ! a) - ?off = seq (?Fj ! b) - ?off" by simp
  ultimately have "seq (?Fi ! a) = seq (?Fj ! b)" by simp
  moreover from r have d: "distinct (map seq (present h))"
    by (simp add: rel_A_def sorted_seq_distinct)
  then have "inj_on seq (set (present h))" by (simp add: distinct_map)
  ultimately have e: "?Fi ! a = ?Fj ! b" using mem by (auto dest: inj_onD)
  with sub have ij: "i = j" by simp
  from d have "distinct (present h)" by (simp add: distinct_map)
  then have "distinct ?Fi" by simp
  with e ij al bl have "a = b" by (simp add: nth_eq_iff_index_eq)
  with ij show ?thesis by simp
qed

subsection \<open>The variant with an index queue follows the history\<close>

lemma live_snoc:
  "\<forall>j\<in>set iq. j < length r \<Longrightarrow> i < length r \<Longrightarrow> r ! i \<le> count_list iq i
   \<Longrightarrow> live (iq @ [i]) r = live iq r @ [i]"
proof (induction iq arbitrary: r)
  case Nil
  then show ?case by simp
next
  case (Cons j iq)
  show ?case
  proof (cases "r ! j = 0")
    case True
    with Cons.prems have "r ! i \<le> count_list iq i" by (cases "i = j") auto
    with Cons.prems True show ?thesis by (simp add: Cons.IH)
  next
    case False
    let ?r = "r[j := r ! j - 1]"
    from Cons.prems False have "?r ! i \<le> count_list iq i"
      by (cases "i = j") auto
    with Cons.prems have "live (iq @ [i]) ?r = live iq ?r @ [i]"
      by (intro Cons.IH) auto
    with False show ?thesis by simp
  qed
qed

lemma live_mark:
  "\<forall>j\<in>set iq. j < length r \<Longrightarrow> i < length r \<Longrightarrow> r ! i < count_list iq i
   \<Longrightarrow> live iq (r[i := Suc (r ! i)]) = remove1 i (live iq r)"
proof (induction iq arbitrary: r)
  case Nil
  then show ?case by simp
next
  case (Cons j iq)
  show ?case
  proof (cases "j = i")
    case True
    show ?thesis
    proof (cases "r ! i = 0")
      case z: True
      then have "r[i := 0] = r" by (metis list_update_id)
      with True z Cons.prems show ?thesis by simp
    next
      case nz: False
      let ?r = "r[i := r ! i - 1]"
      from nz Cons.prems have "?r[i := Suc (?r ! i)] = r" by (simp add: list_update_same_conv)
      moreover from nz Cons.prems True have "live iq (?r[i := Suc (?r ! i)]) = remove1 i (live iq ?r)"
        by (intro Cons.IH) auto
      ultimately show ?thesis using True nz Cons.prems by simp
    qed
  next
    case False
    show ?thesis
    proof (cases "r ! j = 0")
      case True
      with False Cons.prems show ?thesis by (simp add: Cons.IH)
    next
      case nz: False
      let ?r = "r[j := r ! j - 1]"
      from False Cons.prems have "live iq (?r[i := Suc (?r ! i)]) = remove1 i (live iq ?r)"
        by (intro Cons.IH) auto
      with False nz Cons.prems show ?thesis by (simp add: list_update_swap)
    qed
  qed
qed

lemma adjust_deque_total:
  "\<forall>j\<in>set iq. j < SIZE \<Longrightarrow> \<exists>iq' r'. adjust_deque SIZE iq r = Ret (iq', r')"
  by (induction iq arbitrary: r) auto

lemma adjust_deque_spec:
  "adjust_deque SIZE iq r = Ret (iq', r') \<Longrightarrow>
   live iq' r' = live iq r \<and> length r' = length r \<and> set iq' \<subseteq> set iq \<and>
   (iq' \<noteq> [] \<longrightarrow> r' ! hd iq' = 0) \<and>
   (\<forall>i<length r. count_list iq' i + r ! i = count_list iq i + r' ! i)"
proof (induction iq arbitrary: r)
  case Nil
  then show ?case by simp
next
  case (Cons j iq)
  show ?case
  proof (cases "r ! j = 0")
    case True
    with Cons.prems show ?thesis by (auto split: if_splits)
  next
    case False
    let ?r = "r[j := r ! j - 1]"
    from Cons.prems False have a: "adjust_deque SIZE iq ?r = Ret (iq', r')"
      by (auto split: if_splits)
    note ih = Cons.IH[OF a]
    have "count_list iq' i + r ! i = count_list (j # iq) i + r' ! i" if "i < length r" for i
    proof -
      from ih that have "count_list iq' i + ?r ! i = count_list iq i + r' ! i" by simp
      with False that show ?thesis by (cases "i = j") auto
    qed
    with ih False show ?thesis by auto
  qed
qed

lemma rel_B_init: "rel_B SIZE (init_B SIZE) init_H"
  by (simp add: rel_B_def init_B_def init_H_def)

lemma rel_B_enqueue:
  assumes r: "rel_B SIZE s h" and e: "enqueue_B nd SIZE s i v = Ret s'"
  shows "rel_B SIZE s' (enqueue_H h i v)"
proof -
  from e have i: "i < SIZE" by (auto simp: enqueue_B_def split: if_splits)
  with e have s': "s' = s\<lparr>index_queue := index_queue s @ [i],
                  data_queue := (data_queue s)[i := data_queue s ! i @ [v]],
                  length_B := length_B s + 1\<rparr>"
    by (simp add: enqueue_B_def)
  from r have len: "length (data_queue s) = SIZE" "length (remain s) = SIZE"
    by (simp_all add: rel_B_def)
  from r have bound: "\<forall>j\<in>set (index_queue s). j < length (remain s)"
    by (simp add: rel_B_def)
  from r i have cnt: "count_list (index_queue s) i = remain s ! i + length (data_queue s ! i)"
    by (simp add: rel_B_def)
  then have "remain s ! i \<le> count_list (index_queue s) i" by simp
  with bound i len have lv: "live (index_queue s @ [i]) (remain s) = live (index_queue s) (remain s) @ [i]"
    by (intro live_snoc) auto
  have hd0: "remain s ! hd (index_queue s @ [i]) = 0"
  proof (cases "index_queue s")
    case Nil
    with cnt show ?thesis by simp
  next
    case (Cons a list)
    with r show ?thesis by (simp add: rel_B_def)
  qed
  show ?thesis
    unfolding rel_B_def
  proof (intro conjI allI impI ballI)
    fix j assume "j < SIZE"
    with r i len show "data_queue s' ! j = map val (filter (\<lambda>e. sub e = j) (present (enqueue_H h i v)))"
      by (cases "j = i") (simp_all add: s' enqueue_H_def rel_B_def)
  next
    fix j assume "j < SIZE"
    with r i len show "count_list (index_queue s') j = remain s' ! j + length (data_queue s' ! j)"
      by (cases "j = i") (simp_all add: s' rel_B_def)
  next
    show "sorted_wrt (<) (map seq (present (enqueue_H h i v)))"
      using r by (auto simp: enqueue_H_def rel_B_def sorted_wrt_append)
  next
    show "live (index_queue s') (remain s') = map sub (present (enqueue_H h i v))"
      using r lv by (simp add: s' enqueue_H_def rel_B_def)
  next
    show "remain s' ! hd (index_queue s') = 0" using hd0 by (simp add: s')
  qed (use r i len in \<open>auto simp: s' enqueue_H_def rel_B_def\<close>)
qed

lemma rel_B_front:
  assumes r: "rel_B SIZE s h" and q: "index_queue s = j # iq0"
  shows "\<exists>e es. present h = e # es \<and> sub e = j \<and> live iq0 (remain s) = map sub es \<and>
           j < SIZE \<and> remain s ! j = 0 \<and>
           data_queue s ! j = val e # map val (filter (\<lambda>x. sub x = j) es)"
proof -
  from r q have j: "j < SIZE" and z: "remain s ! j = 0" by (simp_all add: rel_B_def)
  from r q z have "j # live iq0 (remain s) = map sub (present h)" by (simp add: rel_B_def)
  then obtain e es where p: "present h = e # es" "sub e = j" "live iq0 (remain s) = map sub es"
    by (cases "present h") auto
  with r j have "data_queue s ! j = val e # map val (filter (\<lambda>x. sub x = j) es)"
    by (simp add: rel_B_def)
  with p j z show ?thesis by blast
qed

lemma rel_B_pop_front:
  assumes r: "rel_B SIZE s h" and q: "index_queue s = j # iq0"
    and p: "present h = e # es"
    and a: "adjust_deque SIZE iq0 (remain s) = Ret (iq', r')"
  shows "rel_B SIZE (popped_front_B s j iq' r') (h\<lparr>present := es\<rparr>)"
proof -
  from rel_B_front[OF r q] p have f: "sub e = j" "live iq0 (remain s) = map sub es" "j < SIZE"
      "remain s ! j = 0" "data_queue s ! j = val e # map val (filter (\<lambda>x. sub x = j) es)"
    by simp_all
  from r have len: "length (data_queue s) = SIZE" "length (remain s) = SIZE"
    by (simp_all add: rel_B_def)
  note sp = adjust_deque_spec[OF a]
  from sp have lv: "live iq' r' = live iq0 (remain s)" and lr: "length r' = length (remain s)"
    and sub: "set iq' \<subseteq> set iq0" and hd: "iq' \<noteq> [] \<longrightarrow> r' ! hd iq' = 0"
    and cn: "\<forall>i<length (remain s). count_list iq' i + remain s ! i = count_list iq0 i + r' ! i"
    by simp_all
  from r p have dec: "dec_size_t (length_B s) = length es"
    by (simp add: rel_B_def dec_size_t_pos)
  show ?thesis
    unfolding rel_B_def
  proof (intro conjI allI impI ballI)
    fix i assume i: "i < SIZE"
    with r p f len show "data_queue (popped_front_B s j iq' r') ! i =
        map val (filter (\<lambda>e. sub e = i) (present (h\<lparr>present := es\<rparr>)))"
      by (cases "i = j") (auto simp: popped_front_B_def rel_B_def)
  next
    fix i assume i: "i < SIZE"
    from r i q have old: "count_list (j # iq0) i = remain s ! i + length (data_queue s ! i)"
      by (simp add: rel_B_def)
    from cn i len have "count_list iq' i + remain s ! i = count_list iq0 i + r' ! i" by simp
    with old f i len show "count_list (index_queue (popped_front_B s j iq' r')) i =
        remain (popped_front_B s j iq' r') ! i + length (data_queue (popped_front_B s j iq' r') ! i)"
      by (cases "i = j") (auto simp: popped_front_B_def)
  next
    fix i assume "i \<in> set (index_queue (popped_front_B s j iq' r'))"
    with sub r q show "i < SIZE" by (auto simp: popped_front_B_def rel_B_def)
  next
    show "sorted_wrt (<) (map seq (present (h\<lparr>present := es\<rparr>)))"
      using r p by (simp add: rel_B_def)
  qed (use r p f lv lr hd dec len in \<open>auto simp: popped_front_B_def rel_B_def\<close>)
qed

lemma rel_B_pop_inner:
  assumes r: "rel_B SIZE s h" and i: "i < SIZE" and q: "index_queue s = j # iq0" and ij: "i \<noteq> j"
    and f: "filter (\<lambda>x. sub x = i) (present h) = e # rest"
  shows "rel_B SIZE (popped_inner_B s i) (h\<lparr>present := remove1 e (present h)\<rparr>)"
proof -
  let ?p' = "remove1 e (present h)"
  from f have "e \<in> set (filter (\<lambda>e. sub e = i) (present h))" by simp
  then have mem: "e \<in> set (present h)" and sub: "sub e = i" by simp_all
  from r have len: "length (data_queue s) = SIZE" "length (remain s) = SIZE"
    by (simp_all add: rel_B_def)
  from mem have pos: "0 < length (present h)" by (cases "present h") auto
  from r pos have dec: "dec_size_t (length_B s) = length ?p'"
    using mem by (simp add: rel_B_def dec_size_t_pos length_remove1)
  from r i f have di: "data_queue s ! i = val e # map val rest" by (simp add: rel_B_def)
  from r i have cnt: "count_list (index_queue s) i = remain s ! i + length (data_queue s ! i)"
    by (simp add: rel_B_def)
  with di have "remain s ! i < count_list (index_queue s) i" by simp
  moreover from r len have "\<forall>j\<in>set (index_queue s). j < length (remain s)"
    by (simp add: rel_B_def)
  ultimately have "live (index_queue s) ((remain s)[i := Suc (remain s ! i)])
      = remove1 i (live (index_queue s) (remain s))"
    using i len by (intro live_mark) auto
  also have "\<dots> = map sub ?p'"
    using r by (simp add: rel_B_def map_sub_remove1[OF f])
  finally have lv: "live (index_queue s) ((remain s)[i := Suc (remain s ! i)]) = map sub ?p'" .
  have sub_set: "set ?p' \<subseteq> set (present h)" by (rule set_remove1_subset)
  show ?thesis
    unfolding rel_B_def
  proof (intro conjI allI impI ballI)
    fix k assume k: "k < SIZE"
    show "data_queue (popped_inner_B s i) ! k =
        map val (filter (\<lambda>e. sub e = k) (present (h\<lparr>present := ?p'\<rparr>)))"
    proof (cases "k = i")
      case True
      with i len di show ?thesis
        by (simp add: popped_inner_B_def filter_remove1_head[OF f])
    next
      case False
      with sub have "filter (\<lambda>e. sub e = k) ?p' = filter (\<lambda>e. sub e = k) (present h)"
        by (intro filter_remove1_other) auto
      with False r k len show ?thesis by (simp add: popped_inner_B_def rel_B_def)
    qed
  next
    fix k assume k: "k < SIZE"
    with r have "count_list (index_queue s) k = remain s ! k + length (data_queue s ! k)"
      by (simp add: rel_B_def)
    with cnt di i k len show "count_list (index_queue (popped_inner_B s i)) k =
        remain (popped_inner_B s i) ! k + length (data_queue (popped_inner_B s i) ! k)"
      by (cases "k = i") (auto simp: popped_inner_B_def)
  next
    show "sorted_wrt (<) (map seq (present (h\<lparr>present := ?p'\<rparr>)))"
      using r by (simp add: rel_B_def sorted_seq_remove1)
  next
    show "live (index_queue (popped_inner_B s i)) (remain (popped_inner_B s i)) =
        map sub (present (h\<lparr>present := ?p'\<rparr>))"
      using lv by (simp add: popped_inner_B_def)
  next
    fix x assume "x \<in> set (present (h\<lparr>present := ?p'\<rparr>))"
    with sub_set r show "seq x < issued (h\<lparr>present := ?p'\<rparr>)" "sub x < SIZE"
      by (auto simp: rel_B_def)
  next
    assume "index_queue (popped_inner_B s i) \<noteq> []"
    from r q ij i len show "remain (popped_inner_B s i) ! hd (index_queue (popped_inner_B s i)) = 0"
      by (simp add: popped_inner_B_def rel_B_def)
  qed (use r dec len in \<open>auto simp: popped_inner_B_def rel_B_def\<close>)
qed

lemma rel_B_empty: "rel_B SIZE s h \<Longrightarrow> (index_queue s = []) = (present h = [])"
proof (cases "index_queue s")
  case Nil
  assume "rel_B SIZE s h"
  with Nil show ?thesis by (simp add: rel_B_def)
next
  case (Cons j iq0)
  assume "rel_B SIZE s h"
  from rel_B_front[OF this Cons] Cons show ?thesis by auto
qed

lemma front_B_rel:
  assumes r: "rel_B SIZE s h" and p: "present h = e # es"
  shows "front_B nd SIZE s = Ret (val e)"
proof -
  from rel_B_empty[OF r] p obtain j iq0 where q: "index_queue s = j # iq0"
    by (cases "index_queue s") auto
  from rel_B_front[OF r q] p q show ?thesis by (auto simp: front_B_def)
qed

lemma dequeue_B_rel:
  assumes r: "rel_B SIZE s h" and p: "present h = e # es"
  shows "\<exists>iq' r'. dequeue_B nd SIZE s = Ret (popped_front_B s (sub e) iq' r') \<and>
           rel_B SIZE (popped_front_B s (sub e) iq' r') (h\<lparr>present := es\<rparr>)"
proof -
  from rel_B_empty[OF r] p obtain j iq0 where q: "index_queue s = j # iq0"
    by (cases "index_queue s") auto
  from rel_B_front[OF r q] p have f: "sub e = j" "j < SIZE" "data_queue s ! j \<noteq> []"
    by auto
  from r q have "\<forall>k\<in>set iq0. k < SIZE" by (simp add: rel_B_def)
  from adjust_deque_total[OF this] obtain iq' r' where
    a: "adjust_deque SIZE iq0 (remain s) = Ret (iq', r')" by blast
  with q f have "dequeue_B nd SIZE s = Ret (popped_front_B s (sub e) iq' r')"
    by (simp add: dequeue_B_def popped_front_B_def)
  with rel_B_pop_front[OF r q p a] f show ?thesis by auto
qed

lemma dequeue_at_B_rel:
  assumes r: "rel_B SIZE s h" and i: "i < SIZE"
    and f: "filter (\<lambda>x. sub x = i) (present h) = e # rest"
  shows "\<exists>s'. dequeue_at_B nd SIZE s i = Ret s' \<and>
           rel_B SIZE s' (h\<lparr>present := remove1 e (present h)\<rparr>) \<and>
           data_queue s' = (data_queue s)[i := tl (data_queue s ! i)] \<and>
           length_B s' = dec_size_t (length_B s)"
proof -
  from r i f have di: "data_queue s ! i \<noteq> []" by (simp add: rel_B_def)
  from f have "present h \<noteq> []" by auto
  with rel_B_empty[OF r] obtain j iq0 where q: "index_queue s = j # iq0"
    by (cases "index_queue s") auto
  show ?thesis
  proof (cases "i = j")
    case True
    from rel_B_front[OF r q] obtain e0 es where
      p: "present h = e0 # es" "sub e0 = j" by blast
    with f True have e: "e0 = e" by simp
    from r q have "\<forall>k\<in>set iq0. k < SIZE" by (simp add: rel_B_def)
    from adjust_deque_total[OF this] obtain iq' r' where
      a: "adjust_deque SIZE iq0 (remain s) = Ret (iq', r')" by blast
    with q True i di have "dequeue_at_B nd SIZE s i = Ret (popped_front_B s j iq' r')"
      by (simp add: dequeue_at_B_def popped_front_B_def)
    moreover from p e have "remove1 e (present h) = es" by simp
    ultimately show ?thesis
      using rel_B_pop_front[OF r q p(1) a] True by (simp add: popped_front_B_def)
  next
    case False
    with q i di have "dequeue_at_B nd SIZE s i = Ret (popped_inner_B s i)"
      by (simp add: dequeue_at_B_def popped_inner_B_def)
    with rel_B_pop_inner[OF r i q False f] show ?thesis
      by (simp add: popped_inner_B_def)
  qed
qed

lemma rel_B_dequeue:
  assumes r: "rel_B SIZE s h" and d: "dequeue_B nd SIZE s = Ret s'"
  shows "rel_B SIZE s' (dequeue_H h)"
proof (cases "present h")
  case Nil
  with rel_B_empty[OF r] d show ?thesis by (simp add: dequeue_B_def split: if_splits)
next
  case (Cons e es)
  from r have "sorted_wrt (<) (map seq (present h))" by (simp add: rel_B_def)
  then have "dequeue_H h = h\<lparr>present := es\<rparr>"
    by (simp add: dequeue_H_sorted Cons)
  with dequeue_B_rel[OF r Cons, of nd] d show ?thesis by auto
qed

lemma rel_B_dequeue_at:
  assumes r: "rel_B SIZE s h" and d: "dequeue_at_B nd SIZE s i = Ret s'"
  shows "rel_B SIZE s' (dequeue_at_H h i)"
proof -
  from d have i: "i < SIZE" and di: "data_queue s ! i \<noteq> []"
    by (auto simp: dequeue_at_B_def split: if_splits)
  from r have srt: "sorted_wrt (<) (map seq (present h))" by (simp add: rel_B_def)
  from r i di obtain e rest where f: "filter (\<lambda>x. sub x = i) (present h) = e # rest"
    by (cases "filter (\<lambda>x. sub x = i) (present h)") (auto simp: rel_B_def)
  have "oldest (filter (\<lambda>e. sub e = i) (present h)) = Some e"
    using sorted_seq_filter[OF srt, of "\<lambda>e. sub e = i"] oldest_sorted[of "e # rest"]
    by (simp add: f)
  then have "dequeue_at_H h i = h\<lparr>present := remove1 e (present h)\<rparr>"
    by (simp add: dequeue_at_H_def)
  with dequeue_at_B_rel[OF r i f, of nd] d show ?thesis by auto
qed

lemma run_B_rel: "run_B nd SIZE s h \<Longrightarrow> rel_B SIZE s h"
proof (induction rule: run_B.induct)
  case init
  show ?case by (rule rel_B_init)
next
  case (enq s h i v s')
  then show ?case by (blast intro: rel_B_enqueue)
next
  case (deq s h s')
  then show ?case by (blast intro: rel_B_dequeue)
next
  case (deq_at s h i s')
  then show ?case by (blast intro: rel_B_dequeue_at)
qed

lemma rel_B_sum: "rel_B SIZE s h \<Longrightarrow> length_B s = (\<Sum>i<SIZE. length (data_queue s ! i))"
proof -
  assume r: "rel_B SIZE s h"
  then have "length_B s = (\<Sum>i<SIZE. length (filter (\<lambda>e. sub e = i) (present h)))"
    using length_by_sub[of "present h" SIZE] by (simp add: rel_B_def)
  also have "\<dots> = (\<Sum>i<SIZE. length (data_queue s ! i))"
    using r by (intro sum.cong) (simp_all add: rel_B_def)
  finally show ?thesis .
qed

lemma rel_B_values:
  "rel_B SIZE s h \<Longrightarrow> i < SIZE \<Longrightarrow>
   data_queue s ! i = map val (filter (\<lambda>x. sub x = i) (present h))"
  by (simp add: rel_B_def)

lemma rel_B_index_length:
  assumes r: "rel_B SIZE s h"
  shows "length (index_queue s) = length_B s + (\<Sum>i<SIZE. remain s ! i)"
proof -
  from r have "\<forall>j\<in>set (index_queue s). j < SIZE" by (simp add: rel_B_def)
  then have "length (index_queue s) = (\<Sum>i<SIZE. count_list (index_queue s) i)"
    by (rule length_by_count)
  also have "\<dots> = (\<Sum>i<SIZE. remain s ! i + length (data_queue s ! i))"
    using r by (intro sum.cong) (simp_all add: rel_B_def)
  also have "\<dots> = (\<Sum>i<SIZE. remain s ! i) + (\<Sum>i<SIZE. length (data_queue s ! i))"
    by (simp add: sum.distrib)
  finally show ?thesis by (simp add: rel_B_sum[OF r])
qed

subsection \<open>Both variants side by side\<close>

lemma enqueue_A_ok:
  "i < SIZE \<Longrightarrow> count_A s < ULONG_MAX \<Longrightarrow> \<exists>s'. enqueue_A nd SIZE s i v = Ret (True, s')"
  by (simp add: enqueue_A_def)

lemma enqueue_B_ok: "i < SIZE \<Longrightarrow> \<exists>s'. enqueue_B nd SIZE s i v = Ret s'"
  by (simp add: enqueue_B_def)

lemma run_AB_history:
  "run_AB nd SIZE sa sb \<Longrightarrow> \<exists>h. run_A nd SIZE sa h \<and> run_B nd SIZE sb h"
proof (induction rule: run_AB.induct)
  case init
  have "run_A nd SIZE (init_A SIZE) init_H \<and> run_B nd SIZE (init_B SIZE) init_H"
    by (simp add: run_A.init run_B.init)
  then show ?case ..
next
  case (enq sa sb i v ok sa' sb')
  from enq.IH obtain h where h: "run_A nd SIZE sa h" "run_B nd SIZE sb h" by blast
  from enqueue_A_ok[OF enq.hyps(2,3), of nd v] enq.hyps(4)
  have "enqueue_A nd SIZE sa i v = Ret (True, sa')" by auto
  from run_A.enq[OF h(1) this] run_B.enq[OF h(2) enq.hyps(5)] show ?case by blast
next
  case (deq sa sb sa' sb')
  from deq.IH obtain h where h: "run_A nd SIZE sa h" "run_B nd SIZE sb h" by blast
  from run_A.deq[OF h(1) deq.hyps(3)] run_B.deq[OF h(2) deq.hyps(4)] show ?case by blast
next
  case (deq_at sa sb i sa' sb')
  from deq_at.IH obtain h where h: "run_A nd SIZE sa h" "run_B nd SIZE sb h" by blast
  from run_A.deq_at[OF h(1) deq_at.hyps(3)] run_B.deq_at[OF h(2) deq_at.hyps(4)]
  show ?case by blast
qed

lemma rel_AB_observers:
  assumes a: "rel_A SIZE sa h" and b: "rel_B SIZE sb h"
  shows "size_A sa = size_B sb" "empty_A sa = empty_B sb"
    "size_at_A nd SIZE sa i = size_at_B nd SIZE sb i"
    "empty_at_A nd SIZE sa i = empty_at_B nd SIZE sb i"
    "front_at_A nd SIZE sa i = front_at_B nd SIZE sb i"
proof -
  show "size_A sa = size_B sb"
    using a b by (simp add: size_A_def size_B_def rel_A_def rel_B_def)
  show "empty_A sa = empty_B sb"
    using rel_A_length[OF a] rel_B_empty[OF b] by (auto simp: empty_A_def empty_B_def)
  have v: "map snd (queues_A sa ! i) = data_queue sb ! i" if "i < SIZE"
    using rel_A_values[OF a that] rel_B_values[OF b that] by simp
  have l: "length (queues_A sa ! i) = length (data_queue sb ! i)" if "i < SIZE"
  proof -
    have "length (map snd (queues_A sa ! i)) = length (data_queue sb ! i)"
      by (simp only: v[OF that])
    then show ?thesis by simp
  qed
  from l show "size_at_A nd SIZE sa i = size_at_B nd SIZE sb i"
    by (simp add: size_at_A_def size_at_B_def)
  have e: "(queues_A sa ! i = []) = (data_queue sb ! i = [])" if "i < SIZE"
    using l[OF that] by auto
  show "empty_at_A nd SIZE sa i = empty_at_B nd SIZE sb i"
  proof (cases "i < SIZE")
    case True
    with e[OF True] show ?thesis by (simp add: empty_at_A_def empty_at_B_def)
  next
    case False
    then show ?thesis by (simp add: empty_at_A_def empty_at_B_def)
  qed
  have h: "snd (hd (queues_A sa ! i)) = hd (data_queue sb ! i)" if "i < SIZE" "queues_A sa ! i \<noteq> []"
  proof -
    have "hd (map snd (queues_A sa ! i)) = snd (hd (queues_A sa ! i))"
      using that(2) by (rule hd_map)
    then show ?thesis by (simp only: v[OF that(1)])
  qed
  show "front_at_A nd SIZE sa i = front_at_B nd SIZE sb i"
  proof (cases "i < SIZE \<and> queues_A sa ! i \<noteq> []")
    case True
    with e[of] h show ?thesis by (simp add: front_at_A_def front_at_B_def)
  next
    case False
    with e show ?thesis by (auto simp: front_at_A_def front_at_B_def)
  qed
qed

lemma rel_AB_front:
  assumes a: "rel_A SIZE sa h" and b: "rel_B SIZE sb h" and ne: "\<not> empty_A sa"
  shows "\<exists>v. front_A nd SIZE sa = Ret v \<and> front_B nd SIZE sb = Ret v"
proof -
  from ne rel_A_length[OF a] obtain e es where p: "present h = e # es"
    by (cases "present h") (auto simp: empty_A_def)
  from front_A_rel[OF a p, of nd] front_B_rel[OF b p, of nd] show ?thesis by simp
qed

lemma rel_AB_dequeue:
  assumes a: "rel_A SIZE sa h" and b: "rel_B SIZE sb h" and ne: "\<not> empty_A sa"
  shows "\<exists>sa' sb'. dequeue_A nd SIZE sa = Ret sa' \<and> dequeue_B nd SIZE sb = Ret sb'"
proof -
  from ne rel_A_length[OF a] obtain e es where p: "present h = e # es"
    by (cases "present h") (auto simp: empty_A_def)
  from dequeue_A_rel[OF a p, of nd] dequeue_B_rel[OF b p, of nd] show ?thesis by blast
qed

lemma rel_AB_dequeue_at:
  assumes a: "rel_A SIZE sa h" and b: "rel_B SIZE sb h"
    and ne: "empty_at_A nd SIZE sa i = Ret False"
  shows "\<exists>sa' sb'. dequeue_at_A nd SIZE sa i = Ret sa' \<and> dequeue_at_B nd SIZE sb i = Ret sb'"
proof -
  from ne have i: "i < SIZE" and q: "queues_A sa ! i \<noteq> []"
    by (auto simp: empty_at_A_def split: if_splits)
  from a i q obtain e rest where f: "filter (\<lambda>x. sub x = i) (present h) = e # rest"
    by (cases "filter (\<lambda>x. sub x = i) (present h)") (auto simp: rel_A_def)
  from dequeue_at_A_nonempty[OF i q, of nd] dequeue_at_B_rel[OF b i f, of nd]
  show ?thesis by blast
qed

subsection \<open>The example states are reachable\<close>

lemma init_A_2: "init_A 2 = \<lparr>queues_A = [[], []], count_A = 0, length_A = 0\<rparr>"
  by (simp add: init_A_def numeral_2_eq_2)

lemma init_B_2: "init_B 2 = \<lparr>index_queue = [], data_queue = [[], []], remain = [0, 0], length_B = 0\<rparr>"
  by (simp add: init_B_def numeral_2_eq_2)

lemma enqueue_A_first: "enqueue_A False 2 (init_A 2) 0 (CHR ''c'') = Ret (True, \<lparr>queues_A = [[(0, CHR ''c'')], []], count_A = 1, length_A = 1\<rparr>)"
  by (simp add: enqueue_A_def init_A_2 ULONG_MAX_def inc_size_t_def)

lemma dequeue_A_last: "dequeue_A False 2 \<lparr>queues_A = [[(0, CHR ''c'')], []], count_A = 1, length_A = 1\<rparr> = Ret  \<lparr>queues_A = [[], []], count_A = 0, length_A = 0\<rparr>"
  by (simp add: dequeue_A_def find_oldest_front_def find_loop.simps dec_size_t_def)

lemma run_A_full: "run_A nd 2 full_A full_H"
proof -
  let ?s1 = "\<lparr>queues_A = [[(0, CHR ''a'')], []], count_A = 1, length_A = 1\<rparr>"
  let ?h1 = "\<lparr>present = [Entry 0 0 CHR ''a''], issued = 1\<rparr>"
  let ?s2 = "\<lparr>queues_A = [[(0, CHR ''a'')], [(1, CHR ''b'')]], count_A = 2, length_A = 2\<rparr>"
  let ?h2 = "\<lparr>present = [Entry 0 0 CHR ''a'', Entry 1 1 CHR ''b''], issued = 2\<rparr>"
  have s1: "enqueue_A nd 2 (init_A 2) 0 CHR ''a'' = Ret (True, ?s1)"
    by (simp add: enqueue_A_def init_A_2 ULONG_MAX_def inc_size_t_def)
  have h1: "enqueue_H init_H 0 CHR ''a'' = ?h1"
    by (simp add: enqueue_H_def init_H_def)
  have s2: "enqueue_A nd 2 ?s1 1 CHR ''b'' = Ret (True, ?s2)"
    by (simp add: enqueue_A_def ULONG_MAX_def inc_size_t_def)
  have h2: "enqueue_H ?h1 1 CHR ''b'' = ?h2"
    by (simp add: enqueue_H_def)
  have s3: "enqueue_A nd 2 ?s2 0 CHR ''c'' = Ret (True, full_A)"
    by (simp add: enqueue_A_def ULONG_MAX_def inc_size_t_def full_A_def)
  have h3: "enqueue_H ?h2 0 CHR ''c'' = full_H"
    by (simp add: enqueue_H_def full_H_def)
  have r1: "run_A nd 2 ?s1 ?h1"
    using run_A.enq[OF run_A.init s1] by (simp only: h1)
  have r2: "run_A nd 2 ?s2 ?h2"
    using run_A.enq[OF r1 s2] by (simp only: h2)
  show ?thesis
    using run_A.enq[OF r2 s3] by (simp only: h3)
qed

lemma run_A_example: "run_A nd 2 example_A example_H"
proof -
  have s4: "dequeue_at_A nd 2 full_A 1 = Ret example_A"
    by (simp add: dequeue_at_A_def dec_size_t_def example_A_def full_A_def)
  have h4: "dequeue_at_H full_H 1 = example_H"
    by (simp add: dequeue_at_H_def example_H_def full_H_def)
  show ?thesis
    using run_A.deq_at[OF run_A_full s4] by (simp only: h4)
qed

lemma run_B_full: "run_B nd 2 full_B full_H"
proof -
  let ?s1 = "\<lparr>index_queue = [0], data_queue = [[CHR ''a''], []], remain = [0, 0], length_B = 1\<rparr>"
  let ?h1 = "\<lparr>present = [Entry 0 0 CHR ''a''], issued = 1\<rparr>"
  let ?s2 = "\<lparr>index_queue = [0, 1], data_queue = [[CHR ''a''], [CHR ''b'']], remain = [0, 0], length_B = 2\<rparr>"
  let ?h2 = "\<lparr>present = [Entry 0 0 CHR ''a'', Entry 1 1 CHR ''b''], issued = 2\<rparr>"
  have s1: "enqueue_B nd 2 (init_B 2) 0 CHR ''a'' = Ret ?s1"
    by (simp add: enqueue_B_def init_B_2)
  have h1: "enqueue_H init_H 0 CHR ''a'' = ?h1"
    by (simp add: enqueue_H_def init_H_def)
  have s2: "enqueue_B nd 2 ?s1 1 CHR ''b'' = Ret ?s2"
    by (simp add: enqueue_B_def)
  have h2: "enqueue_H ?h1 1 CHR ''b'' = ?h2"
    by (simp add: enqueue_H_def)
  have s3: "enqueue_B nd 2 ?s2 0 CHR ''c'' = Ret full_B"
    by (simp add: enqueue_B_def full_B_def)
  have h3: "enqueue_H ?h2 0 CHR ''c'' = full_H"
    by (simp add: enqueue_H_def full_H_def)
  have r1: "run_B nd 2 ?s1 ?h1"
    using run_B.enq[OF run_B.init s1] by (simp only: h1)
  have r2: "run_B nd 2 ?s2 ?h2"
    using run_B.enq[OF r1 s2] by (simp only: h2)
  show ?thesis
    using run_B.enq[OF r2 s3] by (simp only: h3)
qed

lemma run_B_example: "run_B nd 2 example_B example_H"
proof -
  have s4: "dequeue_at_B nd 2 full_B 1 = Ret example_B"
    by (simp add: dequeue_at_B_def dec_size_t_def example_B_def full_B_def)
  have h4: "dequeue_at_H full_H 1 = example_H"
    by (simp add: dequeue_at_H_def example_H_def full_H_def)
  show ?thesis
    using run_B.deq_at[OF run_B_full s4] by (simp only: h4)
qed

lemma run_AB_full: "run_AB nd 2 full_A full_B"
proof -
  let ?a1 = "\<lparr>queues_A = [[(0, CHR ''a'')], []], count_A = 1, length_A = 1\<rparr>"
  let ?a2 = "\<lparr>queues_A = [[(0, CHR ''a'')], [(1, CHR ''b'')]], count_A = 2, length_A = 2\<rparr>"
  let ?b1 = "\<lparr>index_queue = [0], data_queue = [[CHR ''a''], []], remain = [0, 0], length_B = 1\<rparr>"
  let ?b2 = "\<lparr>index_queue = [0, 1], data_queue = [[CHR ''a''], [CHR ''b'']], remain = [0, 0], length_B = 2\<rparr>"
  have a1: "enqueue_A nd 2 (init_A 2) 0 CHR ''a'' = Ret (True, ?a1)"
    by (simp add: enqueue_A_def init_A_2 ULONG_MAX_def inc_size_t_def)
  have a2: "enqueue_A nd 2 ?a1 1 CHR ''b'' = Ret (True, ?a2)"
    by (simp add: enqueue_A_def ULONG_MAX_def inc_size_t_def)
  have a3: "enqueue_A nd 2 ?a2 0 CHR ''c'' = Ret (True, full_A)"
    by (simp add: enqueue_A_def ULONG_MAX_def inc_size_t_def full_A_def)
  have b1: "enqueue_B nd 2 (init_B 2) 0 CHR ''a'' = Ret ?b1"
    by (simp add: enqueue_B_def init_B_2)
  have b2: "enqueue_B nd 2 ?b1 1 CHR ''b'' = Ret ?b2"
    by (simp add: enqueue_B_def)
  have b3: "enqueue_B nd 2 ?b2 0 CHR ''c'' = Ret full_B"
    by (simp add: enqueue_B_def full_B_def)
  have r1: "run_AB nd 2 ?a1 ?b1"
    by (rule run_AB.enq[OF run_AB.init _ _ a1 b1]) (simp_all add: init_A_def ULONG_MAX_def)
  have r2: "run_AB nd 2 ?a2 ?b2"
    by (rule run_AB.enq[OF r1 _ _ a2 b2]) (simp_all add: ULONG_MAX_def)
  show ?thesis
    by (rule run_AB.enq[OF r2 _ _ a3 b3]) (simp_all add: ULONG_MAX_def)
qed

lemma run_AB_example: "run_AB nd 2 example_A example_B"
proof -
  have a: "dequeue_at_A nd 2 full_A 1 = Ret example_A"
    by (simp add: dequeue_at_A_def dec_size_t_def example_A_def full_A_def)
  have b: "dequeue_at_B nd 2 full_B 1 = Ret example_B"
    by (simp add: dequeue_at_B_def dec_size_t_def example_B_def full_B_def)
  have e: "empty_at_A nd 2 full_A 1 = Ret False"
    by (simp add: empty_at_A_def full_A_def)
  show ?thesis by (rule run_AB.deq_at[OF run_AB_full e a b])
qed

lemma run_A_single:
  "n < ULONG_MAX \<Longrightarrow>
   run_A nd 1 \<lparr>queues_A = [[(n, c)]], count_A = Suc n, length_A = 1\<rparr>
     \<lparr>present = [Entry n 0 c], issued = Suc n\<rparr>"
proof (induction n)
  case 0
  have s: "enqueue_A nd 1 (init_A 1) 0 c =
      Ret (True, \<lparr>queues_A = [[(0, c)]], count_A = Suc 0, length_A = 1\<rparr>)"
    using 0 by (simp add: enqueue_A_def init_A_def inc_size_t_count)
  have h: "enqueue_H init_H 0 c = \<lparr>present = [Entry 0 0 c], issued = Suc 0\<rparr>"
    by (simp add: enqueue_H_def init_H_def)
  show ?case using run_A.enq[OF run_A.init s] by (simp only: h)
next
  case (Suc n)
  let ?s = "\<lparr>queues_A = [[(n, c)]], count_A = Suc n, length_A = 1\<rparr>"
  let ?h = "\<lparr>present = [Entry n 0 c], issued = Suc n\<rparr>"
  let ?s1 = "\<lparr>queues_A = [[(n, c), (Suc n, c)]], count_A = Suc (Suc n), length_A = 2\<rparr>"
  let ?h1 = "\<lparr>present = [Entry n 0 c, Entry (Suc n) 0 c], issued = Suc (Suc n)\<rparr>"
  from Suc have r: "run_A nd 1 ?s ?h" by simp
  have s1: "enqueue_A nd 1 ?s 0 c = Ret (True, ?s1)"
    using Suc.prems by (simp add: enqueue_A_def inc_size_t_count)
  have h1: "enqueue_H ?h 0 c = ?h1"
    by (simp add: enqueue_H_def)
  have r1: "run_A nd 1 ?s1 ?h1"
    using run_A.enq[OF r s1] by (simp only: h1)
  have s2: "dequeue_at_A nd 1 ?s1 0 =
      Ret \<lparr>queues_A = [[(Suc n, c)]], count_A = Suc (Suc n), length_A = 1\<rparr>"
    by (simp add: dequeue_at_A_def dec_size_t_def)
  have h2: "dequeue_at_H ?h1 0 = \<lparr>present = [Entry (Suc n) 0 c], issued = Suc (Suc n)\<rparr>"
    by (simp add: dequeue_at_H_def)
  show ?case using run_A.deq_at[OF r1 s2] by (simp only: h2)
qed

lemma run_A_exhausted: "run_A nd 1 exhausted_A exhausted_H"
  using run_A_single[of "ULONG_MAX - 1" nd "CHR ''c''"]
  by (simp add: exhausted_A_def exhausted_H_def ULONG_MAX_def)

section \<open>The claims\<close>

subsection \<open>Claim C1\<close>

text \<open>
  Claim C1.  Take a state of either variant reached by any interleaving of \<open>enqueue\<close>,
  \<open>dequeue()\<close> and \<open>dequeue(i)\<close>, with the history of that run.  The values stored in
  sub-queue \<open>i\<close> are those of the present entries of sub-queue \<open>i\<close>, in their order; and
  when the structure is not empty, \<open>front()\<close> returns the value of the present entry
  whose insertion sequence number is less than that of every other present entry.
\<close>
theorem front_is_oldest:
  "(run_A ndebug SIZE sa ha \<and> \<not> empty_A sa \<longrightarrow>
      (\<forall>i<SIZE. map snd (queues_A sa ! i) = map val (filter (\<lambda>x. sub x = i) (present ha))) \<and>
      (\<exists>e\<in>set (present ha). front_A ndebug SIZE sa = Ret (val e) \<and>
         (\<forall>x\<in>set (present ha). x \<noteq> e \<longrightarrow> seq e < seq x))) \<and>
   (run_B ndebug SIZE sb hb \<and> \<not> empty_B sb \<longrightarrow>
      (\<forall>i<SIZE. data_queue sb ! i = map val (filter (\<lambda>x. sub x = i) (present hb))) \<and>
      (\<exists>e\<in>set (present hb). front_B ndebug SIZE sb = Ret (val e) \<and>
         (\<forall>x\<in>set (present hb). x \<noteq> e \<longrightarrow> seq e < seq x)))"
proof (intro conjI impI)
  assume a: "run_A ndebug SIZE sa ha \<and> \<not> empty_A sa"
  then have r: "rel_A SIZE sa ha" by (blast intro: run_A_rel)
  from r show "\<forall>i<SIZE. map snd (queues_A sa ! i) = map val (filter (\<lambda>x. sub x = i) (present ha))"
    by (simp add: rel_A_values)
  from a rel_A_length[OF r] obtain e es where p: "present ha = e # es"
    by (cases "present ha") (auto simp: empty_A_def)
  from r p have "\<forall>x\<in>set (present ha). x \<noteq> e \<longrightarrow> seq e < seq x"
    using sorted_hd_least[of e es] by (simp add: rel_A_def)
  with front_A_rel[OF r p, of ndebug] p
  show "\<exists>e\<in>set (present ha). front_A ndebug SIZE sa = Ret (val e) \<and>
         (\<forall>x\<in>set (present ha). x \<noteq> e \<longrightarrow> seq e < seq x)"
    by (intro bexI[of _ e]) simp_all
next
  assume a: "run_B ndebug SIZE sb hb \<and> \<not> empty_B sb"
  then have r: "rel_B SIZE sb hb" by (blast intro: run_B_rel)
  from r show "\<forall>i<SIZE. data_queue sb ! i = map val (filter (\<lambda>x. sub x = i) (present hb))"
    by (simp add: rel_B_values)
  from a rel_B_empty[OF r] obtain e es where p: "present hb = e # es"
    by (cases "present hb") (auto simp: empty_B_def)
  from r p have "\<forall>x\<in>set (present hb). x \<noteq> e \<longrightarrow> seq e < seq x"
    using sorted_hd_least[of e es] by (simp add: rel_B_def)
  with front_B_rel[OF r p, of ndebug] p
  show "\<exists>e\<in>set (present hb). front_B ndebug SIZE sb = Ret (val e) \<and>
         (\<forall>x\<in>set (present hb). x \<noteq> e \<longrightarrow> seq e < seq x)"
    by (intro bexI[of _ e]) simp_all
qed

theorem front_is_oldest_witness:
  "run_A False 2 example_A example_H \<and> \<not> empty_A example_A \<and>
   run_B False 2 example_B example_H \<and> \<not> empty_B example_B \<and>
   (\<exists>e\<in>set (present example_H). front_A False 2 example_A = Ret (val e) \<and>
      (\<forall>x\<in>set (present example_H). x \<noteq> e \<longrightarrow> seq e < seq x)) \<and>
   (\<exists>e\<in>set (present example_H). front_B False 2 example_B = Ret (val e) \<and>
      (\<forall>x\<in>set (present example_H). x \<noteq> e \<longrightarrow> seq e < seq x)) \<and>
   front_A False 2 example_A = Ret CHR ''a'' \<and> front_B False 2 example_B = Ret CHR ''a''"
proof -
  have a: "\<not> empty_A example_A" "\<not> empty_B example_B"
    by (simp_all add: empty_A_def empty_B_def example_A_def example_B_def)
  have f: "front_A False 2 example_A = Ret CHR ''a''" "front_B False 2 example_B = Ret CHR ''a''"
    by (simp_all add: front_A_def front_B_def find_oldest_front_def find_loop.simps
        example_A_def example_B_def)
  from front_is_oldest[of False 2 example_A example_H example_B example_H]
    run_A_example[of False] run_B_example[of False] a f
  show ?thesis by simp
qed

subsection \<open>Claim C2\<close>

text \<open>
  Claim C2.  In a reachable state of either variant that is not empty, let \<open>e\<close> be the
  present entry with the least insertion sequence number.  Then \<open>front()\<close> returns the
  value of \<open>e\<close>, that value is at the front of sub-queue \<open>sub e\<close>, and \<open>dequeue()\<close> returns
  a state in which sub-queue \<open>sub e\<close> has lost exactly this front element, every other
  sub-queue is as before, and \<open>size()\<close> is one less; in the history \<open>e\<close> is gone.
\<close>
theorem dequeue_removes_oldest:
  "(run_A ndebug SIZE sa ha \<and> \<not> empty_A sa \<longrightarrow>
      (\<exists>e\<in>set (present ha).
         (\<forall>x\<in>set (present ha). x \<noteq> e \<longrightarrow> seq e < seq x) \<and>
         front_A ndebug SIZE sa = Ret (val e) \<and>
         sub e < SIZE \<and> queues_A sa ! sub e \<noteq> [] \<and> snd (hd (queues_A sa ! sub e)) = val e \<and>
         (\<exists>sa'. dequeue_A ndebug SIZE sa = Ret sa' \<and>
            queues_A sa' ! sub e = tl (queues_A sa ! sub e) \<and>
            (\<forall>j<SIZE. j \<noteq> sub e \<longrightarrow> queues_A sa' ! j = queues_A sa ! j) \<and>
            size_A sa' + 1 = size_A sa \<and>
            present (dequeue_H ha) = remove1 e (present ha)))) \<and>
   (run_B ndebug SIZE sb hb \<and> \<not> empty_B sb \<longrightarrow>
      (\<exists>e\<in>set (present hb).
         (\<forall>x\<in>set (present hb). x \<noteq> e \<longrightarrow> seq e < seq x) \<and>
         front_B ndebug SIZE sb = Ret (val e) \<and>
         sub e < SIZE \<and> data_queue sb ! sub e \<noteq> [] \<and> hd (data_queue sb ! sub e) = val e \<and>
         (\<exists>sb'. dequeue_B ndebug SIZE sb = Ret sb' \<and>
            data_queue sb' ! sub e = tl (data_queue sb ! sub e) \<and>
            (\<forall>j<SIZE. j \<noteq> sub e \<longrightarrow> data_queue sb' ! j = data_queue sb ! j) \<and>
            size_B sb' + 1 = size_B sb \<and>
            present (dequeue_H hb) = remove1 e (present hb))))"
proof (intro conjI impI)
  assume a: "run_A ndebug SIZE sa ha \<and> \<not> empty_A sa"
  then have r: "rel_A SIZE sa ha" by (blast intro: run_A_rel)
  from a rel_A_length[OF r] obtain e es where p: "present ha = e # es"
    by (cases "present ha") (auto simp: empty_A_def)
  from r have srt: "sorted_wrt (<) (map seq (present ha))"
    and len: "length (queues_A sa) = SIZE" by (simp_all add: rel_A_def)
  from srt p have least: "\<forall>x\<in>set (present ha). x \<noteq> e \<longrightarrow> seq e < seq x"
    using sorted_hd_least[of e es] by simp
  from r p have j: "sub e < SIZE" by (simp add: rel_A_def)
  from rel_A_values[OF r j] p have v: "map snd (queues_A sa ! sub e) =
      val e # map val (filter (\<lambda>x. sub x = sub e) es)" by simp
  then have ne: "queues_A sa ! sub e \<noteq> []" and hd: "snd (hd (queues_A sa ! sub e)) = val e"
    by (auto simp: hd_map[symmetric])
  have d: "dequeue_A ndebug SIZE sa = Ret (popped_A sa (sub e))"
    by (rule dequeue_A_rel[OF r p])
  have q: "queues_A (popped_A sa (sub e)) ! sub e = tl (queues_A sa ! sub e)"
      "\<forall>j<SIZE. j \<noteq> sub e \<longrightarrow> queues_A (popped_A sa (sub e)) ! j = queues_A sa ! j"
    using len j by (simp_all add: popped_A_def)
  from a have "size_A (popped_A sa (sub e)) + 1 = size_A sa"
    by (simp add: popped_A_def size_A_def empty_A_def dec_size_t_def)
  moreover from srt p have "present (dequeue_H ha) = remove1 e (present ha)"
    by (simp add: dequeue_H_sorted)
  ultimately show "\<exists>e\<in>set (present ha).
         (\<forall>x\<in>set (present ha). x \<noteq> e \<longrightarrow> seq e < seq x) \<and>
         front_A ndebug SIZE sa = Ret (val e) \<and>
         sub e < SIZE \<and> queues_A sa ! sub e \<noteq> [] \<and> snd (hd (queues_A sa ! sub e)) = val e \<and>
         (\<exists>sa'. dequeue_A ndebug SIZE sa = Ret sa' \<and>
            queues_A sa' ! sub e = tl (queues_A sa ! sub e) \<and>
            (\<forall>j<SIZE. j \<noteq> sub e \<longrightarrow> queues_A sa' ! j = queues_A sa ! j) \<and>
            size_A sa' + 1 = size_A sa \<and>
            present (dequeue_H ha) = remove1 e (present ha))"
    using least front_A_rel[OF r p, of ndebug] j ne hd d q p
    by (intro bexI[of _ e]) auto
next
  assume a: "run_B ndebug SIZE sb hb \<and> \<not> empty_B sb"
  then have r: "rel_B SIZE sb hb" by (blast intro: run_B_rel)
  from a rel_B_empty[OF r] obtain e es where p: "present hb = e # es"
    by (cases "present hb") (auto simp: empty_B_def)
  from r have srt: "sorted_wrt (<) (map seq (present hb))"
    and len: "length (data_queue sb) = SIZE" by (simp_all add: rel_B_def)
  from srt p have least: "\<forall>x\<in>set (present hb). x \<noteq> e \<longrightarrow> seq e < seq x"
    using sorted_hd_least[of e es] by simp
  from r p have j: "sub e < SIZE" by (simp add: rel_B_def)
  from rel_B_values[OF r j] p have v: "data_queue sb ! sub e =
      val e # map val (filter (\<lambda>x. sub x = sub e) es)" by simp
  then have ne: "data_queue sb ! sub e \<noteq> []" and hd: "hd (data_queue sb ! sub e) = val e"
    by auto
  from dequeue_B_rel[OF r p, of ndebug] obtain iq' r' where
    d: "dequeue_B ndebug SIZE sb = Ret (popped_front_B sb (sub e) iq' r')" by blast
  have q: "data_queue (popped_front_B sb (sub e) iq' r') ! sub e = tl (data_queue sb ! sub e)"
      "\<forall>j<SIZE. j \<noteq> sub e \<longrightarrow> data_queue (popped_front_B sb (sub e) iq' r') ! j = data_queue sb ! j"
    using len j by (simp_all add: popped_front_B_def)
  from r p have "size_B (popped_front_B sb (sub e) iq' r') + 1 = size_B sb"
    by (simp add: popped_front_B_def size_B_def rel_B_def dec_size_t_def)
  moreover from srt p have "present (dequeue_H hb) = remove1 e (present hb)"
    by (simp add: dequeue_H_sorted)
  ultimately show "\<exists>e\<in>set (present hb).
         (\<forall>x\<in>set (present hb). x \<noteq> e \<longrightarrow> seq e < seq x) \<and>
         front_B ndebug SIZE sb = Ret (val e) \<and>
         sub e < SIZE \<and> data_queue sb ! sub e \<noteq> [] \<and> hd (data_queue sb ! sub e) = val e \<and>
         (\<exists>sb'. dequeue_B ndebug SIZE sb = Ret sb' \<and>
            data_queue sb' ! sub e = tl (data_queue sb ! sub e) \<and>
            (\<forall>j<SIZE. j \<noteq> sub e \<longrightarrow> data_queue sb' ! j = data_queue sb ! j) \<and>
            size_B sb' + 1 = size_B sb \<and>
            present (dequeue_H hb) = remove1 e (present hb))"
    using least front_B_rel[OF r p, of ndebug] j ne hd d q p
    by (intro bexI[of _ e]) auto
qed

theorem dequeue_removes_oldest_witness:
  "run_A False 2 example_A example_H \<and> \<not> empty_A example_A \<and>
   run_B False 2 example_B example_H \<and> \<not> empty_B example_B \<and>
   front_A False 2 example_A = Ret CHR ''a'' \<and>
   dequeue_A False 2 example_A =
     Ret \<lparr>queues_A = [[(2, CHR ''c'')], []], count_A = 3, length_A = 1\<rparr> \<and>
   front_B False 2 example_B = Ret CHR ''a'' \<and>
   dequeue_B False 2 example_B =
     Ret \<lparr>index_queue = [0], data_queue = [[CHR ''c''], []], remain = [0, 0], length_B = 1\<rparr> \<and>
   (\<exists>e\<in>set (present example_H). (\<forall>x\<in>set (present example_H). x \<noteq> e \<longrightarrow> seq e < seq x) \<and>
      (\<exists>sa'. dequeue_A False 2 example_A = Ret sa' \<and> size_A sa' + 1 = size_A example_A) \<and>
      (\<exists>sb'. dequeue_B False 2 example_B = Ret sb' \<and> size_B sb' + 1 = size_B example_B))"
proof -
  have a: "\<not> empty_A example_A" "\<not> empty_B example_B"
    by (simp_all add: empty_A_def empty_B_def example_A_def example_B_def)
  have f: "front_A False 2 example_A = Ret CHR ''a''" "front_B False 2 example_B = Ret CHR ''a''"
    by (simp_all add: front_A_def front_B_def find_oldest_front_def find_loop.simps
        example_A_def example_B_def)
  have d: "dequeue_A False 2 example_A =
     Ret \<lparr>queues_A = [[(2, CHR ''c'')], []], count_A = 3, length_A = 1\<rparr>"
    "dequeue_B False 2 example_B =
     Ret \<lparr>index_queue = [0], data_queue = [[CHR ''c''], []], remain = [0, 0], length_B = 1\<rparr>"
    by (simp_all add: dequeue_A_def dequeue_B_def find_oldest_front_def find_loop.simps
        example_A_def example_B_def dec_size_t_def)
  from dequeue_removes_oldest[of False 2 example_A example_H example_B example_H]
    run_A_example[of False] run_B_example[of False] a f d
  show ?thesis by (auto simp: size_A_def size_B_def example_A_def example_B_def)
qed

subsection \<open>Claim C3\<close>

text \<open>
  Claim C3.  In every reachable state of either variant, \<open>size()\<close> is the sum over the
  indices \<open>i < SIZE\<close> of what \<open>size(i)\<close> returns.
\<close>
theorem size_is_sum_of_sizes:
  "(run_A ndebug SIZE sa ha \<longrightarrow>
      (\<exists>f. (\<forall>i<SIZE. size_at_A ndebug SIZE sa i = Ret (f i)) \<and> size_A sa = (\<Sum>i<SIZE. f i))) \<and>
   (run_B ndebug SIZE sb hb \<longrightarrow>
      (\<exists>f. (\<forall>i<SIZE. size_at_B ndebug SIZE sb i = Ret (f i)) \<and> size_B sb = (\<Sum>i<SIZE. f i)))"
proof (intro conjI impI)
  assume "run_A ndebug SIZE sa ha"
  then have "length_A sa = (\<Sum>i<SIZE. length (queues_A sa ! i))"
    by (intro rel_A_sum run_A_rel)
  then show "\<exists>f. (\<forall>i<SIZE. size_at_A ndebug SIZE sa i = Ret (f i)) \<and> size_A sa = (\<Sum>i<SIZE. f i)"
    by (intro exI[of _ "\<lambda>i. length (queues_A sa ! i)"]) (simp add: size_at_A_def size_A_def)
next
  assume "run_B ndebug SIZE sb hb"
  then have "length_B sb = (\<Sum>i<SIZE. length (data_queue sb ! i))"
    by (intro rel_B_sum run_B_rel)
  then show "\<exists>f. (\<forall>i<SIZE. size_at_B ndebug SIZE sb i = Ret (f i)) \<and> size_B sb = (\<Sum>i<SIZE. f i)"
    by (intro exI[of _ "\<lambda>i. length (data_queue sb ! i)"]) (simp add: size_at_B_def size_B_def)
qed

theorem size_is_sum_of_sizes_witness:
  "run_A False 2 example_A example_H \<and>
   (\<exists>f. (\<forall>i<2. size_at_A False 2 example_A i = Ret (f i)) \<and> size_A example_A = (\<Sum>i<2. f i)) \<and>
   run_B False 2 example_B example_H \<and>
   (\<exists>f. (\<forall>i<2. size_at_B False 2 example_B i = Ret (f i)) \<and> size_B example_B = (\<Sum>i<2. f i))"
  using size_is_sum_of_sizes[of False 2 example_A example_H example_B example_H]
    run_A_example[of False] run_B_example[of False]
  by simp

subsection \<open>Claim C4\<close>

text \<open>
  Claim C4, as stated, fails: in the variant with sequence tags \<open>dequeue()\<close> on an empty
  structure and \<open>dequeue(i)\<close> on an empty sub-queue return without an assertion and
  leave the state as it was, as the comments of both functions say.
\<close>
theorem silent_dequeue_counterexample:
  "empty_A (init_A 2 :: char A_state) \<and>
   dequeue_A False 2 (init_A 2 :: char A_state) = Ret (init_A 2) \<and>
   empty_at_A False 2 (init_A 2 :: char A_state) 0 = Ret True \<and>
   dequeue_at_A False 2 (init_A 2 :: char A_state) 0 = Ret (init_A 2)"
  by (simp add: empty_A_def dequeue_A_def empty_at_A_def dequeue_at_A_def init_A_2)

text \<open>
  Claim C4, amended.  With the assertions compiled in, in any state: \<open>front()\<close> on an empty
  structure, \<open>front(i)\<close> on an empty sub-queue, and \<open>front(i)\<close> and \<open>dequeue(i)\<close> with an
  index that is not below \<open>SIZE\<close> stop at an assertion in both variants; \<open>dequeue()\<close> on
  an empty structure and \<open>dequeue(i)\<close> on an empty sub-queue stop at an assertion in the
  variant with an index queue, and in the variant with sequence tags they return and
  change nothing.
\<close>
theorem fail_fast_amended:
  "(empty_A sa \<longrightarrow> front_A False SIZE sa = AssertFail \<and> dequeue_A False SIZE sa = Ret sa) \<and>
   (empty_B sb \<longrightarrow> front_B False SIZE sb = AssertFail \<and> dequeue_B False SIZE sb = AssertFail) \<and>
   (\<not> k < SIZE \<longrightarrow>
      front_at_A False SIZE sa k = AssertFail \<and> dequeue_at_A False SIZE sa k = AssertFail \<and>
      front_at_B False SIZE sb k = AssertFail \<and> dequeue_at_B False SIZE sb k = AssertFail) \<and>
   (empty_at_A False SIZE sa j = Ret True \<longrightarrow>
      front_at_A False SIZE sa j = AssertFail \<and> dequeue_at_A False SIZE sa j = Ret sa) \<and>
   (empty_at_B False SIZE sb j = Ret True \<longrightarrow>
      front_at_B False SIZE sb j = AssertFail \<and> dequeue_at_B False SIZE sb j = AssertFail)"
  by (auto simp: empty_A_def front_A_def dequeue_A_def empty_B_def front_B_def dequeue_B_def
      front_at_A_def dequeue_at_A_def front_at_B_def dequeue_at_B_def
      empty_at_A_def empty_at_B_def split: if_splits)

theorem fail_fast_amended_witness:
  "empty_A (init_A 2 :: char A_state) \<and> empty_B (init_B 2 :: char B_state) \<and> \<not> (2::nat) < 2 \<and>
   empty_at_A False 2 (init_A 2 :: char A_state) 0 = Ret True \<and>
   empty_at_B False 2 (init_B 2 :: char B_state) 0 = Ret True \<and>
   front_A False 2 (init_A 2 :: char A_state) = AssertFail \<and>
   dequeue_A False 2 (init_A 2 :: char A_state) = Ret (init_A 2) \<and>
   front_B False 2 (init_B 2 :: char B_state) = AssertFail \<and>
   dequeue_B False 2 (init_B 2 :: char B_state) = AssertFail \<and>
   front_at_A False 2 (init_A 2 :: char A_state) 2 = AssertFail \<and>
   dequeue_at_A False 2 (init_A 2 :: char A_state) 2 = AssertFail \<and>
   front_at_B False 2 (init_B 2 :: char B_state) 2 = AssertFail \<and>
   dequeue_at_B False 2 (init_B 2 :: char B_state) 2 = AssertFail \<and>
   front_at_A False 2 (init_A 2 :: char A_state) 0 = AssertFail \<and>
   dequeue_at_A False 2 (init_A 2 :: char A_state) 0 = Ret (init_A 2) \<and>
   front_at_B False 2 (init_B 2 :: char B_state) 0 = AssertFail \<and>
   dequeue_at_B False 2 (init_B 2 :: char B_state) 0 = AssertFail"
proof -
  have h: "empty_A (init_A 2 :: char A_state)" "empty_B (init_B 2 :: char B_state)"
    "empty_at_A False 2 (init_A 2 :: char A_state) 0 = Ret True"
    "empty_at_B False 2 (init_B 2 :: char B_state) 0 = Ret True"
    by (simp_all add: empty_A_def empty_B_def empty_at_A_def empty_at_B_def init_A_2 init_B_2)
  from fail_fast_amended[of "init_A 2 :: char A_state" 2 "init_B 2 :: char B_state" 2 0] h
  show ?thesis by simp
qed

subsection \<open>Claim C5\<close>

text \<open>
  Claim C5, as stated, fails for \<open>enqueue\<close>: in a pair of states reached side by side,
  a call within the contract returns \<open>true\<close> to the caller of the variant with sequence
  tags and returns nothing to the caller of the variant with an index queue, so the two
  calls do not return the same result.
\<close>
theorem enqueue_results_differ_counterexample:
  "run_AB False 2 example_A example_B \<and> (0::nat) < 2 \<and> count_A example_A < ULONG_MAX \<and>
   enqueue_returns_A False 2 example_A 0 CHR ''d'' = Ret (Bool True) \<and>
   enqueue_returns_B False 2 example_B 0 CHR ''d'' = Ret Void \<and>
   enqueue_returns_A False 2 example_A 0 CHR ''d'' \<noteq> enqueue_returns_B False 2 example_B 0 CHR ''d''"
proof -
  have a: "enqueue_returns_A False 2 example_A 0 CHR ''d'' = Ret (Bool True)"
    by (simp add: enqueue_returns_A_def enqueue_A_def example_A_def ULONG_MAX_def)
  have b: "enqueue_returns_B False 2 example_B 0 CHR ''d'' = Ret Void"
    by (simp add: enqueue_returns_B_def enqueue_B_def example_B_def)
  have c: "count_A example_A < ULONG_MAX"
    by (simp add: example_A_def ULONG_MAX_def)
  from run_AB_example[of False] a b c show ?thesis by simp
qed

text \<open>
  Claim C5, amended.  Run both variants side by side from their constructors, with the
  same calls, each call within its contract: an index is below \<open>SIZE\<close>, \<open>enqueue\<close> finds the
  insertion counter not exhausted, \<open>dequeue()\<close> finds the structure not empty and
  \<open>dequeue(i)\<close> finds sub-queue \<open>i\<close> not empty.  In every pair of states reached,
  \<open>size()\<close>, \<open>size(i)\<close>, \<open>empty()\<close>, \<open>empty(i)\<close>, \<open>front(i)\<close> give the same, \<open>front()\<close>
  returns the same value when the structure is not empty, and every further call within
  the contract returns in both variants (\<open>enqueue\<close> of the first one with \<open>true\<close>,
  that of the second one has no result) and leads to such a pair again.
\<close>
theorem variants_agree:
  "run_AB ndebug SIZE sa sb \<Longrightarrow>
     size_A sa = size_B sb \<and> empty_A sa = empty_B sb \<and>
     (\<forall>i. size_at_A ndebug SIZE sa i = size_at_B ndebug SIZE sb i) \<and>
     (\<forall>i. empty_at_A ndebug SIZE sa i = empty_at_B ndebug SIZE sb i) \<and>
     (\<forall>i. front_at_A ndebug SIZE sa i = front_at_B ndebug SIZE sb i) \<and>
     (\<not> empty_A sa \<longrightarrow> (\<exists>v. front_A ndebug SIZE sa = Ret v \<and> front_B ndebug SIZE sb = Ret v)) \<and>
     (\<forall>i v. i < SIZE \<and> count_A sa < ULONG_MAX \<longrightarrow>
        (\<exists>sa' sb'. enqueue_A ndebug SIZE sa i v = Ret (True, sa') \<and>
           enqueue_B ndebug SIZE sb i v = Ret sb' \<and> run_AB ndebug SIZE sa' sb')) \<and>
     (\<not> empty_A sa \<longrightarrow>
        (\<exists>sa' sb'. dequeue_A ndebug SIZE sa = Ret sa' \<and>
           dequeue_B ndebug SIZE sb = Ret sb' \<and> run_AB ndebug SIZE sa' sb')) \<and>
     (\<forall>i. empty_at_A ndebug SIZE sa i = Ret False \<longrightarrow>
        (\<exists>sa' sb'. dequeue_at_A ndebug SIZE sa i = Ret sa' \<and>
           dequeue_at_B ndebug SIZE sb i = Ret sb' \<and> run_AB ndebug SIZE sa' sb'))"
proof -
  assume run: "run_AB ndebug SIZE sa sb"
  from run_AB_history[OF run] obtain h where "run_A ndebug SIZE sa h" "run_B ndebug SIZE sb h"
    by blast
  then have a: "rel_A SIZE sa h" and b: "rel_B SIZE sb h"
    by (simp_all add: run_A_rel run_B_rel)
  note obs = rel_AB_observers[OF a b]
  have enq: "\<exists>sa' sb'. enqueue_A ndebug SIZE sa i v = Ret (True, sa') \<and>
           enqueue_B ndebug SIZE sb i v = Ret sb' \<and> run_AB ndebug SIZE sa' sb'"
    if "i < SIZE \<and> count_A sa < ULONG_MAX" for i v
  proof -
    from that have i: "i < SIZE" and c: "count_A sa < ULONG_MAX" by simp_all
    from enqueue_A_ok[OF i c, of ndebug v] obtain sa' where
      ea: "enqueue_A ndebug SIZE sa i v = Ret (True, sa')" by blast
    from enqueue_B_ok[OF i, of ndebug sb v] obtain sb' where
      eb: "enqueue_B ndebug SIZE sb i v = Ret sb'" by blast
    from run_AB.enq[OF run i c ea eb] ea eb show ?thesis by blast
  qed
  have deq: "\<exists>sa' sb'. dequeue_A ndebug SIZE sa = Ret sa' \<and>
           dequeue_B ndebug SIZE sb = Ret sb' \<and> run_AB ndebug SIZE sa' sb'"
    if ne: "\<not> empty_A sa"
  proof -
    from rel_AB_dequeue[OF a b ne, of ndebug] obtain sa' sb' where
      d: "dequeue_A ndebug SIZE sa = Ret sa'" "dequeue_B ndebug SIZE sb = Ret sb'" by blast
    from run_AB.deq[OF run ne d] d show ?thesis by blast
  qed
  have deq_at: "\<exists>sa' sb'. dequeue_at_A ndebug SIZE sa i = Ret sa' \<and>
           dequeue_at_B ndebug SIZE sb i = Ret sb' \<and> run_AB ndebug SIZE sa' sb'"
    if ne: "empty_at_A ndebug SIZE sa i = Ret False" for i
  proof -
    from rel_AB_dequeue_at[OF a b ne] obtain sa' sb' where
      d: "dequeue_at_A ndebug SIZE sa i = Ret sa'" "dequeue_at_B ndebug SIZE sb i = Ret sb'"
      by blast
    from run_AB.deq_at[OF run ne d] d show ?thesis by blast
  qed
  from obs rel_AB_front[OF a b, of ndebug] enq deq deq_at show ?thesis by blast
qed

theorem variants_agree_witness:
  "run_AB False 2 example_A example_B \<and>
   size_A example_A = 2 \<and> size_B example_B = 2 \<and>
   \<not> empty_A example_A \<and> \<not> empty_B example_B \<and>
   front_A False 2 example_A = Ret CHR ''a'' \<and> front_B False 2 example_B = Ret CHR ''a'' \<and>
   (0::nat) < 2 \<and> count_A example_A < ULONG_MAX \<and>
   empty_at_A False 2 example_A 0 = Ret False \<and>
   (\<forall>i. size_at_A False 2 example_A i = size_at_B False 2 example_B i) \<and>
   (\<forall>i. empty_at_A False 2 example_A i = empty_at_B False 2 example_B i) \<and>
   (\<forall>i. front_at_A False 2 example_A i = front_at_B False 2 example_B i) \<and>
   (\<exists>sa' sb'. enqueue_A False 2 example_A 0 CHR ''d'' = Ret (True, sa') \<and>
      enqueue_B False 2 example_B 0 CHR ''d'' = Ret sb' \<and> run_AB False 2 sa' sb') \<and>
   (\<exists>sa' sb'. dequeue_A False 2 example_A = Ret sa' \<and>
      dequeue_B False 2 example_B = Ret sb' \<and> run_AB False 2 sa' sb') \<and>
   (\<exists>sa' sb'. dequeue_at_A False 2 example_A 0 = Ret sa' \<and>
      dequeue_at_B False 2 example_B 0 = Ret sb' \<and> run_AB False 2 sa' sb')"
proof -
  have c: "size_A example_A = 2" "size_B example_B = 2"
    "\<not> empty_A example_A" "\<not> empty_B example_B"
    "count_A example_A < ULONG_MAX" "empty_at_A False 2 example_A 0 = Ret False"
    by (simp_all add: size_A_def size_B_def empty_A_def empty_B_def empty_at_A_def
        ULONG_MAX_def example_A_def example_B_def)
  have f: "front_A False 2 example_A = Ret CHR ''a''" "front_B False 2 example_B = Ret CHR ''a''"
    by (simp_all add: front_A_def front_B_def find_oldest_front_def find_loop.simps
        example_A_def example_B_def)
  from variants_agree[OF run_AB_example[of False]] run_AB_example[of False] c f
  show ?thesis by simp
qed

subsection \<open>Claim C6\<close>

text \<open>
  Claim C6.  In every reachable state of either variant, \<open>empty()\<close> is true exactly when
  \<open>size()\<close> is \<open>0\<close>, and for every index \<open>i < SIZE\<close> the call \<open>empty(i)\<close> returns true
  exactly when \<open>size(i)\<close> returns \<open>0\<close>.
\<close>
theorem empty_iff_size_zero:
  "(run_A ndebug SIZE sa ha \<longrightarrow>
      (empty_A sa \<longleftrightarrow> size_A sa = 0) \<and>
      (\<forall>i<SIZE. \<exists>b n. empty_at_A ndebug SIZE sa i = Ret b \<and> size_at_A ndebug SIZE sa i = Ret n \<and>
         (b \<longleftrightarrow> n = 0))) \<and>
   (run_B ndebug SIZE sb hb \<longrightarrow>
      (empty_B sb \<longleftrightarrow> size_B sb = 0) \<and>
      (\<forall>i<SIZE. \<exists>b n. empty_at_B ndebug SIZE sb i = Ret b \<and> size_at_B ndebug SIZE sb i = Ret n \<and>
         (b \<longleftrightarrow> n = 0)))"
proof (intro conjI impI)
  show "empty_A sa \<longleftrightarrow> size_A sa = 0"
    by (auto simp: empty_A_def size_A_def)
  show "\<forall>i<SIZE. \<exists>b n. empty_at_A ndebug SIZE sa i = Ret b \<and>
      size_at_A ndebug SIZE sa i = Ret n \<and> (b \<longleftrightarrow> n = 0)"
    by (simp add: empty_at_A_def size_at_A_def)
  show "\<forall>i<SIZE. \<exists>b n. empty_at_B ndebug SIZE sb i = Ret b \<and>
      size_at_B ndebug SIZE sb i = Ret n \<and> (b \<longleftrightarrow> n = 0)"
    by (simp add: empty_at_B_def size_at_B_def)
next
  assume "run_B ndebug SIZE sb hb"
  then have r: "rel_B SIZE sb hb" by (rule run_B_rel)
  from rel_B_empty[OF r] r show "empty_B sb \<longleftrightarrow> size_B sb = 0"
    by (simp add: empty_B_def size_B_def rel_B_def)
qed

theorem empty_iff_size_zero_witness:
  "run_A False 2 example_A example_H \<and> run_B False 2 example_B example_H \<and>
   \<not> empty_A example_A \<and> size_A example_A = 2 \<and>
   \<not> empty_B example_B \<and> size_B example_B = 2 \<and>
   (1::nat) < 2 \<and>
   (\<exists>b n. empty_at_A False 2 example_A 1 = Ret b \<and> size_at_A False 2 example_A 1 = Ret n \<and>
      b \<and> n = 0) \<and>
   (\<exists>b n. empty_at_B False 2 example_B 1 = Ret b \<and> size_at_B False 2 example_B 1 = Ret n \<and>
      b \<and> n = 0)"
proof -
  note t = empty_iff_size_zero[of False 2 example_A example_H example_B example_H]
  have ra: "run_A False 2 example_A example_H" by (rule run_A_example)
  have rb: "run_B False 2 example_B example_H" by (rule run_B_example)
  have c: "size_A example_A = 2" "size_B example_B = 2"
    by (simp_all add: size_A_def size_B_def example_A_def example_B_def)
  from t ra c have ea: "\<not> empty_A example_A" by simp
  from t rb c have eb: "\<not> empty_B example_B" by simp
  from t ra have "\<exists>b n. empty_at_A False 2 example_A 1 = Ret b \<and>
      size_at_A False 2 example_A 1 = Ret n \<and> (b \<longleftrightarrow> n = 0)" by simp
  moreover have "empty_at_A False 2 example_A 1 = Ret True"
    by (simp add: empty_at_A_def example_A_def)
  ultimately have a1: "\<exists>b n. empty_at_A False 2 example_A 1 = Ret b \<and>
      size_at_A False 2 example_A 1 = Ret n \<and> b \<and> n = 0" by auto
  from t rb have "\<exists>b n. empty_at_B False 2 example_B 1 = Ret b \<and>
      size_at_B False 2 example_B 1 = Ret n \<and> (b \<longleftrightarrow> n = 0)" by simp
  moreover have "empty_at_B False 2 example_B 1 = Ret True"
    by (simp add: empty_at_B_def example_B_def)
  ultimately have b1: "\<exists>b n. empty_at_B False 2 example_B 1 = Ret b \<and>
      size_at_B False 2 example_B 1 = Ret n \<and> b \<and> n = 0" by auto
  from ra rb ea eb c a1 b1 show ?thesis by simp
qed

subsection \<open>Claim C7\<close>

text \<open>
  Claim C7.  In the variant with sequence tags, a reachable state whose \<open>length_\<close> is
  \<open>0\<close> has \<open>count_\<close> reset to \<open>0\<close> and is the state the constructor builds, so
  every later call does on it what it does on a fresh structure.
\<close>
theorem counter_reset_A:
  "run_A ndebug SIZE s h \<Longrightarrow> length_A s = 0 \<Longrightarrow> count_A s = 0 \<and> s = init_A SIZE"
  using rel_A_drained[OF run_A_rel] by (fastforce simp: init_A_def)

theorem counter_reset_A_witness:
  "run_A False 2 \<lparr>queues_A = [[], []], count_A = 0, length_A = 0\<rparr>
       (dequeue_H (enqueue_H init_H 0 (CHR ''c''))) \<and>
   length_A \<lparr>queues_A = [[], []], count_A = 0, length_A = 0 :: nat\<rparr> = 0 \<and>
   \<lparr>queues_A = [[], []], count_A = 0, length_A = 0\<rparr> = (init_A 2 :: char A_state)"
proof -
  have r: "run_A False 2 \<lparr>queues_A = [[], []], count_A = 0, length_A = 0\<rparr>
       (dequeue_H (enqueue_H init_H 0 (CHR ''c'')))"
    by (rule run_A.deq[OF run_A.enq[OF run_A.init enqueue_A_first] dequeue_A_last])
  from counter_reset_A[OF r] r show ?thesis by (simp add: init_A_2)
qed

subsection \<open>Claim C8\<close>

text \<open>
  Claim C8, as stated, fails where the assertions are compiled in: the state below is
  reachable, its counter is exhausted, and \<open>enqueue\<close> does not return \<open>false\<close> on it
  but stops at \<open>assert(count_ < ULONG_MAX)\<close>.
\<close>
theorem enqueue_exhausted_counterexample:
  "run_A False 1 exhausted_A exhausted_H \<and> count_A exhausted_A = ULONG_MAX \<and>
   enqueue_A False 1 exhausted_A 0 CHR ''d'' = AssertFail \<and>
   enqueue_A False 1 exhausted_A 0 CHR ''d'' \<noteq> Ret (False, exhausted_A)"
  using run_A_exhausted[of False] by (simp add: enqueue_A_def exhausted_A_def)

text \<open>
  Claim C8, amended.  In every reachable state of the variant with sequence tags the
  counter is at most \<open>ULONG_MAX\<close>.  When it is \<open>ULONG_MAX\<close>, \<open>enqueue\<close> with a valid index
  stores nothing: it returns \<open>false\<close> and the state is unchanged where the assertions are
  compiled out, and it stops at its assertion where they are compiled in.  Whenever
  \<open>enqueue\<close> returns \<open>false\<close> the state is unchanged, and whenever it returns \<open>true\<close> the
  counter has grown by exactly one (it did not wrap).  The tags of the stored elements
  are below the counter and no two stored elements have the same tag.
\<close>
theorem counter_exhaustion:
  "run_A ndebug SIZE s h \<Longrightarrow>
     count_A s \<le> ULONG_MAX \<and>
     (\<forall>i v. i < SIZE \<and> count_A s = ULONG_MAX \<longrightarrow>
        enqueue_A ndebug SIZE s i v = (if ndebug then Ret (False, s) else AssertFail)) \<and>
     (\<forall>i v ok s'. enqueue_A ndebug SIZE s i v = Ret (ok, s') \<longrightarrow>
        (if ok then count_A s' = count_A s + 1 \<and> count_A s' \<le> ULONG_MAX else s' = s)) \<and>
     (\<forall>i<SIZE. \<forall>a<length (queues_A s ! i). fst (queues_A s ! i ! a) < count_A s) \<and>
     (\<forall>i<SIZE. \<forall>j<SIZE. \<forall>a<length (queues_A s ! i). \<forall>b<length (queues_A s ! j).
        fst (queues_A s ! i ! a) = fst (queues_A s ! j ! b) \<longrightarrow> i = j \<and> a = b)"
proof -
  assume "run_A ndebug SIZE s h"
  then have r: "rel_A SIZE s h" by (rule run_A_rel)
  then have c: "count_A s \<le> ULONG_MAX" by (simp add: rel_A_def)
  have e: "\<forall>i v. i < SIZE \<and> count_A s = ULONG_MAX \<longrightarrow>
        enqueue_A ndebug SIZE s i v = (if ndebug then Ret (False, s) else AssertFail)"
    by (simp add: enqueue_A_def)
  have n: "\<forall>i v ok s'. enqueue_A ndebug SIZE s i v = Ret (ok, s') \<longrightarrow>
        (if ok then count_A s' = count_A s + 1 \<and> count_A s' \<le> ULONG_MAX else s' = s)"
    by (auto simp: enqueue_A_def inc_size_t_count split: if_splits)
  from c e n rel_A_tag_bound[OF r] rel_A_tags_distinct[OF r] show ?thesis by blast
qed

theorem counter_exhaustion_witness:
  "run_A True 1 exhausted_A exhausted_H \<and> (0::nat) < 1 \<and> count_A exhausted_A = ULONG_MAX \<and>
   enqueue_A True 1 exhausted_A 0 CHR ''d'' = Ret (False, exhausted_A) \<and>
   (0::nat) < length (queues_A exhausted_A ! 0) \<and>
   fst (queues_A exhausted_A ! 0 ! 0) < count_A exhausted_A"
proof -
  have l: "(0::nat) < length (queues_A exhausted_A ! 0)" "count_A exhausted_A = ULONG_MAX"
    by (simp_all add: exhausted_A_def)
  from counter_exhaustion[OF run_A_exhausted[of True]] run_A_exhausted[of True] l
  show ?thesis by auto
qed

subsection \<open>Claim C9\<close>

text \<open>
  Claim C9.  In a reachable state of either variant in which sub-queue \<open>i\<close> is not empty,
  \<open>dequeue(i)\<close> returns, and for every other index \<open>j < SIZE\<close> the calls \<open>size(j)\<close> and
  \<open>front(j)\<close> give afterwards what they gave before.
\<close>
theorem dequeue_at_frame:
  "(run_A ndebug SIZE sa ha \<and> i < SIZE \<and> empty_at_A ndebug SIZE sa i = Ret False \<longrightarrow>
      (\<exists>sa'. dequeue_at_A ndebug SIZE sa i = Ret sa' \<and>
         (\<forall>j<SIZE. j \<noteq> i \<longrightarrow>
            size_at_A ndebug SIZE sa' j = size_at_A ndebug SIZE sa j \<and>
            front_at_A ndebug SIZE sa' j = front_at_A ndebug SIZE sa j))) \<and>
   (run_B ndebug SIZE sb hb \<and> i < SIZE \<and> empty_at_B ndebug SIZE sb i = Ret False \<longrightarrow>
      (\<exists>sb'. dequeue_at_B ndebug SIZE sb i = Ret sb' \<and>
         (\<forall>j<SIZE. j \<noteq> i \<longrightarrow>
            size_at_B ndebug SIZE sb' j = size_at_B ndebug SIZE sb j \<and>
            front_at_B ndebug SIZE sb' j = front_at_B ndebug SIZE sb j)))"
proof (intro conjI impI)
  assume a: "run_A ndebug SIZE sa ha \<and> i < SIZE \<and> empty_at_A ndebug SIZE sa i = Ret False"
  then have i: "i < SIZE" and ne: "queues_A sa ! i \<noteq> []"
    by (auto simp: empty_at_A_def)
  from a have "rel_A SIZE sa ha" by (blast intro: run_A_rel)
  then have len: "length (queues_A sa) = SIZE" by (simp add: rel_A_def)
  have "dequeue_at_A ndebug SIZE sa i = Ret (popped_A sa i)"
    using i ne by (rule dequeue_at_A_nonempty)
  moreover have "\<forall>j<SIZE. j \<noteq> i \<longrightarrow>
            size_at_A ndebug SIZE (popped_A sa i) j = size_at_A ndebug SIZE sa j \<and>
            front_at_A ndebug SIZE (popped_A sa i) j = front_at_A ndebug SIZE sa j"
    using len by (simp add: popped_A_def size_at_A_def front_at_A_def)
  ultimately show "\<exists>sa'. dequeue_at_A ndebug SIZE sa i = Ret sa' \<and>
         (\<forall>j<SIZE. j \<noteq> i \<longrightarrow>
            size_at_A ndebug SIZE sa' j = size_at_A ndebug SIZE sa j \<and>
            front_at_A ndebug SIZE sa' j = front_at_A ndebug SIZE sa j)"
    by blast
next
  assume a: "run_B ndebug SIZE sb hb \<and> i < SIZE \<and> empty_at_B ndebug SIZE sb i = Ret False"
  then have i: "i < SIZE" and ne: "data_queue sb ! i \<noteq> []"
    by (auto simp: empty_at_B_def)
  from a have r: "rel_B SIZE sb hb" by (blast intro: run_B_rel)
  then have len: "length (data_queue sb) = SIZE" by (simp add: rel_B_def)
  from r i ne obtain e rest where f: "filter (\<lambda>x. sub x = i) (present hb) = e # rest"
    by (cases "filter (\<lambda>x. sub x = i) (present hb)") (auto simp: rel_B_def)
  from dequeue_at_B_rel[OF r i f, of ndebug] obtain sb' where
    d: "dequeue_at_B ndebug SIZE sb i = Ret sb'"
      "data_queue sb' = (data_queue sb)[i := tl (data_queue sb ! i)]" by blast
  have "\<forall>j<SIZE. j \<noteq> i \<longrightarrow>
            size_at_B ndebug SIZE sb' j = size_at_B ndebug SIZE sb j \<and>
            front_at_B ndebug SIZE sb' j = front_at_B ndebug SIZE sb j"
    using len d(2) by (simp add: size_at_B_def front_at_B_def)
  with d(1) show "\<exists>sb'. dequeue_at_B ndebug SIZE sb i = Ret sb' \<and>
         (\<forall>j<SIZE. j \<noteq> i \<longrightarrow>
            size_at_B ndebug SIZE sb' j = size_at_B ndebug SIZE sb j \<and>
            front_at_B ndebug SIZE sb' j = front_at_B ndebug SIZE sb j)"
    by blast
qed

theorem dequeue_at_frame_witness:
  "run_A False 2 full_A full_H \<and> (0::nat) < 2 \<and> empty_at_A False 2 full_A 0 = Ret False \<and>
   (\<exists>sa'. dequeue_at_A False 2 full_A 0 = Ret sa' \<and>
      (\<forall>j<2. j \<noteq> 0 \<longrightarrow>
         size_at_A False 2 sa' j = size_at_A False 2 full_A j \<and>
         front_at_A False 2 sa' j = front_at_A False 2 full_A j)) \<and>
   size_at_A False 2 full_A 1 = Ret 1 \<and> front_at_A False 2 full_A 1 = Ret CHR ''b'' \<and>
   run_B False 2 full_B full_H \<and> empty_at_B False 2 full_B 0 = Ret False \<and>
   (\<exists>sb'. dequeue_at_B False 2 full_B 0 = Ret sb' \<and>
      (\<forall>j<2. j \<noteq> 0 \<longrightarrow>
         size_at_B False 2 sb' j = size_at_B False 2 full_B j \<and>
         front_at_B False 2 sb' j = front_at_B False 2 full_B j)) \<and>
   size_at_B False 2 full_B 1 = Ret 1 \<and> front_at_B False 2 full_B 1 = Ret CHR ''b''"
proof -
  have a: "empty_at_A False 2 full_A 0 = Ret False"
    by (simp add: empty_at_A_def full_A_def)
  have b: "empty_at_B False 2 full_B 0 = Ret False"
    by (simp add: empty_at_B_def full_B_def)
  have c: "size_at_A False 2 full_A 1 = Ret 1" "front_at_A False 2 full_A 1 = Ret CHR ''b''"
    "size_at_B False 2 full_B 1 = Ret 1" "front_at_B False 2 full_B 1 = Ret CHR ''b''"
    by (simp_all add: size_at_A_def front_at_A_def size_at_B_def front_at_B_def full_A_def full_B_def)
  from dequeue_at_frame[of False 2 full_A full_H 0 full_B full_H] run_A_full[of False]
    run_B_full[of False] a b c
  show ?thesis by simp
qed

subsection \<open>Claim C10\<close>

text \<open>
  Claim C10.  In every reachable state of the variant with an index queue, the index queue
  has as many entries as \<open>length_\<close> plus the sum of the counters \<open>remain_[i]\<close>, and when
  it is not empty its front entry is an index whose counter is \<open>0\<close> and whose sub-queue is
  not empty.
\<close>
theorem index_queue_invariant:
  "run_B ndebug SIZE s h \<Longrightarrow>
     length (index_queue s) = length_B s + (\<Sum>i<SIZE. remain s ! i) \<and>
     (index_queue s \<noteq> [] \<longrightarrow>
        hd (index_queue s) < SIZE \<and> remain s ! hd (index_queue s) = 0 \<and>
        data_queue s ! hd (index_queue s) \<noteq> [])"
proof -
  assume "run_B ndebug SIZE s h"
  then have r: "rel_B SIZE s h" by (rule run_B_rel)
  have "hd (index_queue s) < SIZE \<and> remain s ! hd (index_queue s) = 0 \<and>
        data_queue s ! hd (index_queue s) \<noteq> []" if "index_queue s \<noteq> []"
  proof -
    from that obtain j iq0 where q: "index_queue s = j # iq0"
      by (cases "index_queue s") auto
    from rel_B_front[OF r q] q show ?thesis by auto
  qed
  with rel_B_index_length[OF r] show ?thesis by blast
qed

theorem index_queue_invariant_witness:
  "run_B False 2 example_B example_H \<and>
   length (index_queue example_B) = length_B example_B + (\<Sum>i<2. remain example_B ! i) \<and>
   index_queue example_B \<noteq> [] \<and>
   hd (index_queue example_B) < 2 \<and> remain example_B ! hd (index_queue example_B) = 0 \<and>
   data_queue example_B ! hd (index_queue example_B) \<noteq> [] \<and>
   remain example_B = [0, 1]"
  using index_queue_invariant[OF run_B_example[of False]] run_B_example[of False]
  by (simp add: example_B_def)

end
